theory Spec2Isabelle
  imports Complex_Main "HOL-Library.Multiset"
begin

section \<open>The optimal purchase plan solver of rpcalc (\<^verbatim>\<open>findOptimalPlan\<close> in \<^verbatim>\<open>src/App.tsx\<close>)\<close>

text \<open>
  The solver is the only algorithmic part of the application: a forward
  dynamic-programming fill over the amounts \<open>0 .. targetRP + maxRP\<close>, a scan for the
  cheapest amount at or above the target, and a walk over the recorded back pointers.

  Conventions of the embedding.
  \<^item> Prices and the entries of the cost array are JavaScript numbers, that is IEEE 754
    doubles: \<open>number\<close> below, with the addition rounded to the nearest double (ties to
    even) and overflowing to \<open>Infinity\<close>.
  \<^item> Amounts, identifiers and the target are integers (the target is a \<^verbatim>\<open>parseInt\<close>
    result, the amounts of the catalogue are integers); every integer the code computes
    from them before it allocates the arrays or while it indexes them is below \<open>2\<^sup>5\<^sup>3\<close>
    whenever the allocation succeeds, so \<open>int\<close> is exact for them.
  \<^item> An array is a list, \<^verbatim>\<open>a[j] = v\<close> is \<open>a[j := v]\<close>. \<^verbatim>\<open>new Array(len)\<close> throws a
    \<^verbatim>\<open>RangeError\<close> unless \<open>len\<close> is at most \<open>2\<^sup>3\<^sup>2 - 1\<close>; the error is a value of the
    result. The only read that can leave the array is \<^verbatim>\<open>dp[nextRP]\<close> with a negative
    \<open>nextRP\<close>; JavaScript yields \<^verbatim>\<open>undefined\<close> there, and a comparison
    \<^verbatim>\<open>x < undefined\<close> is false, which is written out in \<open>tierLoop\<close>.
  \<^item> The \<^verbatim>\<open>while\<close> loop of the reconstruction has no syntactic bound, so it is a
    partial function into \<open>option\<close>: \<open>None\<close> means that the loop never ends.
\<close>

subsection \<open>JavaScript numbers\<close>

text \<open>
  A finite double is the rational it denotes (the sign of zero is not kept: no operation
  of the solver tells \<open>-0\<close> from \<open>0\<close>); the other values are the two infinities and
  \<^verbatim>\<open>NaN\<close>. A rational that no double denotes is not a value the code can hold.
\<close>

datatype number = Num rat | Infinity | NegInfinity | NaN

text \<open>\<open>ilog2 n\<close> is the position of the highest bit of \<open>n\<close>, and \<open>pow2 e\<close> is \<open>2\<^sup>e\<close>.\<close>

function ilog2 :: "int \<Rightarrow> int" where
  "ilog2 n = (if n < 2 then 0 else 1 + ilog2 (n div 2))"
  by pat_completeness auto
termination
  by (relation "measure nat") auto

declare ilog2.simps [simp del]

definition pow2 :: "int \<Rightarrow> rat" where
  "pow2 e = (if 0 \<le> e then 2 ^ nat e else 1 / 2 ^ nat (- e))"

text \<open>The binary exponent of a positive rational \<open>x\<close>: the \<open>e\<close> with \<open>2\<^sup>e \<le> x < 2\<^sup>e\<^sup>+\<^sup>1\<close>.\<close>

definition floor_log2 :: "rat \<Rightarrow> int" where
  "floor_log2 x =
     (if 1 \<le> x then ilog2 \<lfloor>x\<rfloor>
      else let n = \<lceil>1 / x\<rceil> in if n \<le> 1 then 0 else - (1 + ilog2 (n - 1)))"

text \<open>Rounding to the nearest integer, a tie going to the even one.\<close>

definition round_half_even :: "rat \<Rightarrow> int" where
  "round_half_even x =
     (let f = \<lfloor>x\<rfloor>; d = x - of_int f in
      if d < 1 / 2 then f else if 1 / 2 < d then f + 1 else if even f then f else f + 1)"

text \<open>
  The double nearest to a rational: 53 significant bits, the exponent of a normal double
  is at least \<open>-1022\<close> (below, the spacing of the subnormals stays \<open>2\<^sup>-\<^sup>1\<^sup>0\<^sup>7\<^sup>4\<close>), and a result
  of magnitude \<open>2\<^sup>1\<^sup>0\<^sup>2\<^sup>4\<close> or more overflows.
\<close>

definition double_round :: "rat \<Rightarrow> number" where
  "double_round x =
     (if x = 0 then Num 0
      else
        let e = max (floor_log2 \<bar>x\<bar>) (- 1022);
            q = pow2 (e - 52);
            y = of_int (round_half_even (x / q)) * q
        in if 2 ^ 1024 \<le> \<bar>y\<bar> then (if 0 < x then Infinity else NegInfinity) else Num y)"

text \<open>\<^verbatim>\<open>a + b\<close> on numbers.\<close>

fun num_add :: "number \<Rightarrow> number \<Rightarrow> number" where
  "num_add (Num a) (Num b) = double_round (a + b)"
| "num_add NaN b = NaN"
| "num_add a NaN = NaN"
| "num_add Infinity NegInfinity = NaN"
| "num_add NegInfinity Infinity = NaN"
| "num_add Infinity b = Infinity"
| "num_add a Infinity = Infinity"
| "num_add NegInfinity b = NegInfinity"
| "num_add a NegInfinity = NegInfinity"

text \<open>\<^verbatim>\<open>a < b\<close> on numbers: false as soon as one side is \<^verbatim>\<open>NaN\<close>.\<close>

fun num_less :: "number \<Rightarrow> number \<Rightarrow> bool" where
  "num_less (Num a) (Num b) = (a < b)"
| "num_less (Num a) Infinity = True"
| "num_less NegInfinity (Num b) = True"
| "num_less NegInfinity Infinity = True"
| "num_less a b = False"

subsection \<open>Data\<close>

text \<open>\<^verbatim>\<open>interface RPPackage { id: number; rp: number; price: number; }\<close>\<close>

record RPPackage =
  id_pkg :: int
  rp :: int
  price :: number

text \<open>The result object \<^verbatim>\<open>{ packages, totalRP, totalPrice }\<close>.\<close>

record plan =
  packages :: "RPPackage list"
  totalRP :: int
  totalPrice :: number

text \<open>The only exception the function can raise.\<close>

datatype error = RangeError

text \<open>
  The two arrays of the fill: \<^verbatim>\<open>dp\<close>, and \<^verbatim>\<open>parent\<close> whose entries are \<^verbatim>\<open>null\<close>
  or \<^verbatim>\<open>{ tier, prevRP }\<close>.
\<close>

type_synonym parent_entry = "(RPPackage \<times> int) option"
type_synonym table = "number list \<times> parent_entry list"

subsection \<open>The cost-table fill\<close>

text \<open>\<^verbatim>\<open>tiers.reduce((max, t) => Math.max(max, t.rp), 0)\<close>\<close>

definition maxRP_of :: "RPPackage list \<Rightarrow> int" where
  "maxRP_of tiers = foldl (\<lambda>mx t. max mx (rp t)) 0 tiers"

text \<open>
  \<^verbatim>\<open>new Array(len).fill(v)\<close>: the constructor throws unless \<open>len\<close> is an array length.
\<close>

definition new_Array :: "int \<Rightarrow> 'a \<Rightarrow> error + 'a list" where
  "new_Array len v =
     (if 0 \<le> len \<and> len \<le> 4294967295 then Inr (replicate (nat len) v) else Inl RangeError)"

text \<open>
  The inner loop \<^verbatim>\<open>for (const tier of tiers)\<close> at a fixed \<open>i\<close>. The entry \<^verbatim>\<open>dp[i]\<close>
  is read again for every tier, as in the source.
\<close>

fun tierLoop :: "int \<Rightarrow> int \<Rightarrow> RPPackage list \<Rightarrow> table \<Rightarrow> table" where
  "tierLoop maxPossibleRP i [] tb = tb"
| "tierLoop maxPossibleRP i (tier # rest) (dp, parent) =
     (let nextRP = i + rp tier in
      if nextRP \<le> maxPossibleRP \<and> 0 \<le> nextRP \<and>
         num_less (num_add (dp ! nat i) (price tier)) (dp ! nat nextRP)
      then tierLoop maxPossibleRP i rest
             (dp[nat nextRP := num_add (dp ! nat i) (price tier)],
              parent[nat nextRP := Some (tier, i)])
      else tierLoop maxPossibleRP i rest (dp, parent))"

text \<open>
  The outer loop \<^verbatim>\<open>for (let i = 0; i < maxPossibleRP; i++)\<close>, with the
  \<^verbatim>\<open>continue\<close> on an unreachable \<open>i\<close>.
\<close>

function fillLoop :: "int \<Rightarrow> RPPackage list \<Rightarrow> int \<Rightarrow> table \<Rightarrow> table" where
  "fillLoop maxPossibleRP tiers i tb =
     (if i < maxPossibleRP
      then fillLoop maxPossibleRP tiers (i + 1)
             (if fst tb ! nat i = Infinity then tb else tierLoop maxPossibleRP i tiers tb)
      else tb)"
  by pat_completeness auto
termination
  by (relation "measure (\<lambda>(maxPossibleRP, tiers, i, tb). nat (maxPossibleRP - i))") auto

declare fillLoop.simps [simp del]

text \<open>The allocation of both arrays, \<^verbatim>\<open>dp[0] = 0\<close>, and the fill.\<close>

definition buildTable :: "int \<Rightarrow> RPPackage list \<Rightarrow> error + table" where
  "buildTable maxPossibleRP tiers =
     (case new_Array (maxPossibleRP + 1) Infinity of
        Inl e \<Rightarrow> Inl e
      | Inr dp \<Rightarrow>
          (case new_Array (maxPossibleRP + 1) None of
             Inl e \<Rightarrow> Inl e
           | Inr parent \<Rightarrow> Inr (fillLoop maxPossibleRP tiers 0 (dp[0 := Num 0], parent))))"

subsection \<open>Selection and reconstruction\<close>

text \<open>
  The scan \<^verbatim>\<open>for (let i = targetRP; i <= maxPossibleRP; i++)\<close> over the pair
  \<open>(minPrice, bestRP)\<close>.
\<close>

function scanLoop :: "number list \<Rightarrow> int \<Rightarrow> int \<Rightarrow> number \<times> int \<Rightarrow> number \<times> int" where
  "scanLoop dp maxPossibleRP i (minPrice, bestRP) =
     (if i \<le> maxPossibleRP
      then scanLoop dp maxPossibleRP (i + 1)
             (if num_less (dp ! nat i) minPrice then (dp ! nat i, i) else (minPrice, bestRP))
      else (minPrice, bestRP))"
  by pat_completeness auto
termination
  by (relation "measure (\<lambda>(dp, maxPossibleRP, i, st). nat (maxPossibleRP + 1 - i))") auto

declare scanLoop.simps [simp del]

text \<open>
  The walk \<^verbatim>\<open>while (curr > 0 && parent[curr])\<close> over the pair
  \<open>(curr, resultPackages)\<close>: its condition, its body, and the loop. An index outside
  the array reads \<^verbatim>\<open>undefined\<close>, which is falsy.
\<close>

definition parent_at :: "parent_entry list \<Rightarrow> int \<Rightarrow> parent_entry" where
  "parent_at parent j =
     (if 0 \<le> j \<and> nat j < length parent then parent ! nat j else None)"

definition walk_cond :: "parent_entry list \<Rightarrow> int \<times> RPPackage list \<Rightarrow> bool" where
  "walk_cond parent st = (0 < fst st \<and> parent_at parent (fst st) \<noteq> None)"

definition walk_body :: "parent_entry list \<Rightarrow> int \<times> RPPackage list \<Rightarrow> int \<times> RPPackage list" where
  "walk_body parent st =
     (case parent_at parent (fst st) of
        Some (tier, prevRP) \<Rightarrow> (prevRP, snd st @ [tier])
      | None \<Rightarrow> st)"

partial_function (option) walk ::
  "parent_entry list \<Rightarrow> int \<times> RPPackage list \<Rightarrow> (int \<times> RPPackage list) option" where
  "walk parent st = (if walk_cond parent st then walk parent (walk_body parent st) else Some st)"

declare walk.simps [code]

subsection \<open>The solver\<close>

text \<open>
  The outcome is \<open>None\<close> when the walk never ends, \<open>Some (Inl RangeError)\<close> when the
  allocation throws, and \<open>Some (Inr plan)\<close> when the function returns.
\<close>

definition findOptimalPlan :: "int \<Rightarrow> RPPackage list \<Rightarrow> (error + plan) option" where
  "findOptimalPlan targetRP tiers =
     (if targetRP \<le> 0 then Some (Inr \<lparr>packages = [], totalRP = 0, totalPrice = Num 0\<rparr>)
      else
        let maxRP = maxRP_of tiers;
            maxPossibleRP = targetRP + maxRP
        in case buildTable maxPossibleRP tiers of
             Inl e \<Rightarrow> Some (Inl e)
           | Inr (dp, parent) \<Rightarrow>
               let (minPrice, bestRP) = scanLoop dp maxPossibleRP targetRP (Infinity, targetRP)
               in case walk parent (bestRP, []) of
                    None \<Rightarrow> None
                  | Some (cur, resultPackages) \<Rightarrow>
                      Some (Inr \<lparr>packages = resultPackages, totalRP = bestRP,
                                 totalPrice = minPrice\<rparr>))"

subsection \<open>Specification vocabulary and invariants\<close>

text \<open>
  A purchase is a multiset of packages of the catalogue; its amount is the sum of the
  amounts and its price the exact (unrounded) sum of the prices of its members.
\<close>

definition price_val :: "RPPackage \<Rightarrow> rat" where
  "price_val t = (case price t of Num r \<Rightarrow> r | _ \<Rightarrow> 0)"

definition total_amount :: "RPPackage multiset \<Rightarrow> int" where
  "total_amount M = sum_mset (image_mset rp M)"

definition total_cost :: "RPPackage multiset \<Rightarrow> rat" where
  "total_cost M = sum_mset (image_mset price_val M)"

text \<open>
  The catalogues of the specification: at least one package, every amount and every
  price strictly positive.
\<close>

definition valid_tiers :: "RPPackage list \<Rightarrow> bool" where
  "valid_tiers tiers =
     (tiers \<noteq> [] \<and> list_all (\<lambda>t. 0 < rp t \<and> num_less (Num 0) (price t)) tiers)"

text \<open>The arrays of \<open>targetRP + maxRP + 1\<close> entries can be allocated.\<close>

definition allocatable :: "int \<Rightarrow> RPPackage list \<Rightarrow> bool" where
  "allocatable targetRP tiers = (targetRP + maxRP_of tiers + 1 \<le> 4294967295)"

text \<open>
  Every price is a positive integer, small enough for every sum the fill computes to stay
  at or below \<open>2\<^sup>5\<^sup>3\<close>, where the addition of doubles is exact.
\<close>

definition exact_prices :: "int \<Rightarrow> RPPackage list \<Rightarrow> bool" where
  "exact_prices targetRP tiers =
     list_all (\<lambda>t. case price t of
                      Num r \<Rightarrow> of_int \<lfloor>r\<rfloor> = r \<and> 0 < r \<and>
                        r * of_int (targetRP + maxRP_of tiers) \<le> 2 ^ 53
                    | _ \<Rightarrow> False) tiers"

text \<open>For any amounts and prices: an entry with a back pointer is not \<open>Infinity\<close>.\<close>

definition linked_finite :: "table \<Rightarrow> bool" where
  "linked_finite tb = (length (snd tb) = length (fst tb) \<and>
     (\<forall>k < length (fst tb). snd tb ! k \<noteq> None \<longrightarrow> fst tb ! k \<noteq> Infinity))"

text \<open>
  For positive amounts: a back pointer at index \<open>k\<close> names a package \<open>t\<close> of the catalogue
  and the amount \<open>k - rp t\<close>, which is not negative.
\<close>

definition links_struct :: "RPPackage list \<Rightarrow> table \<Rightarrow> bool" where
  "links_struct tiers tb = (length (snd tb) = length (fst tb) \<and>
     (\<forall>k < length (fst tb). \<forall>t prev. snd tb ! k = Some (t, prev) \<longrightarrow>
        t \<in> set tiers \<and> 0 \<le> prev \<and> prev < int k \<and> prev + rp t = int k))"

text \<open>
  An exact entry at index \<open>k\<close>: a non-negative integer \<open>v\<close> with
  \<open>v * maxP \<le> k * 2\<^sup>5\<^sup>3\<close>, so that adding a price to it is exact.
\<close>

definition entry_ok :: "int \<Rightarrow> int \<Rightarrow> rat \<Rightarrow> bool" where
  "entry_ok maxP k v = (v \<in> \<int> \<and> 0 \<le> v \<and> v * of_int maxP \<le> of_int k * 2 ^ 53)"

text \<open>
  The state of both arrays when the outer loop reaches \<open>i\<close>, for prices whose sums are
  exact: amount \<open>0\<close> costs \<open>0\<close> and has no back pointer; any other entry is either untouched,
  or its back pointer names a package \<open>t\<close> and an amount \<open>prev < i\<close> with \<open>prev + rp t\<close> the
  entry's index and the entry's cost the cost at \<open>prev\<close> plus the price of \<open>t\<close>.
\<close>

definition links_ok :: "RPPackage list \<Rightarrow> int \<Rightarrow> int \<Rightarrow> table \<Rightarrow> bool" where
  "links_ok tiers maxP i tb =
     (length (fst tb) = nat (maxP + 1) \<and> length (snd tb) = nat (maxP + 1) \<and>
      fst tb ! 0 = Num 0 \<and> snd tb ! 0 = None \<and>
      (\<forall>k. 0 < k \<and> k \<le> maxP \<longrightarrow>
         (fst tb ! nat k = Infinity \<and> snd tb ! nat k = None) \<or>
         (\<exists>t prev c. snd tb ! nat k = Some (t, prev) \<and> t \<in> set tiers \<and> 0 \<le> prev \<and> prev < i \<and>
            prev + rp t = k \<and> fst tb ! nat prev = Num c \<and>
            fst tb ! nat k = Num (c + price_val t) \<and> entry_ok maxP k (c + price_val t))))"

text \<open>
  What the fill has relaxed when the outer loop reaches \<open>i\<close>: a purchase of amount below
  \<open>i\<close> extended by one package is matched or beaten by the entry of its amount.
\<close>

definition covers :: "RPPackage list \<Rightarrow> int \<Rightarrow> int \<Rightarrow> number list \<Rightarrow> bool" where
  "covers tiers maxP i dp =
     (\<forall>M t. set_mset M \<subseteq> set tiers \<and> t \<in> set tiers \<and> total_amount M < i \<and>
        total_amount M + rp t \<le> maxP \<longrightarrow>
        (\<exists>c. dp ! nat (total_amount M + rp t) = Num c \<and> c \<le> total_cost M + price_val t))"

text \<open>The prices of the catalogue are positive integers \<open>p\<close> with \<open>p * maxP \<le> 2\<^sup>5\<^sup>3\<close>.\<close>

definition prices_ok :: "RPPackage list \<Rightarrow> int \<Rightarrow> bool" where
  "prices_ok tiers maxP =
     (\<forall>t\<in>set tiers. \<exists>p. price t = Num p \<and> price_val t = p \<and> p \<in> \<int> \<and> 0 < p \<and>
        p * of_int maxP \<le> 2 ^ 53)"

text \<open>The entries that the fill produces from exact prices: a finite number or \<open>Infinity\<close>.\<close>

fun plain :: "number \<Rightarrow> bool" where
  "plain (Num v) = True"
| "plain Infinity = True"
| "plain NegInfinity = False"
| "plain NaN = False"

text \<open>
  The state \<open>(minPrice, bestRP)\<close> of the scan when it reaches \<open>i\<close>: nothing seen is cheaper
  than \<open>minPrice\<close>, everything before \<open>bestRP\<close> is strictly dearer, and \<open>minPrice\<close> is the
  entry at \<open>bestRP\<close> unless nothing finite has been seen.
\<close>

definition scan_inv :: "number list \<Rightarrow> int \<Rightarrow> int \<Rightarrow> number \<times> int \<Rightarrow> bool" where
  "scan_inv dp target i st =
     (target \<le> snd st \<and> plain (fst st) \<and>
      (fst st = Infinity \<and> snd st = target \<or>
       snd st < i \<and> fst st = dp ! nat (snd st) \<and> fst st \<noteq> Infinity) \<and>
      (\<forall>k. target \<le> k \<and> k < i \<longrightarrow> \<not> num_less (dp ! nat k) (fst st)) \<and>
      (\<forall>k. target \<le> k \<and> k < snd st \<longrightarrow> num_less (fst st) (dp ! nat k)))"

text \<open>
  The array \<^verbatim>\<open>parent\<close> that \<open>findOptimalPlan\<close> walks (empty when the allocation throws),
  and the state of the walk after \<open>n\<close> executions of the loop body.
\<close>

definition parent_table :: "int \<Rightarrow> RPPackage list \<Rightarrow> parent_entry list" where
  "parent_table targetRP tiers =
     (case buildTable (targetRP + maxRP_of tiers) tiers of
        Inl e \<Rightarrow> []
      | Inr (dp, parent) \<Rightarrow> parent)"

definition walk_state :: "parent_entry list \<Rightarrow> int \<Rightarrow> nat \<Rightarrow> int \<times> RPPackage list" where
  "walk_state parent bestRP n = (walk_body parent ^^ n) (bestRP, [])"

section \<open>Properties\<close>

subsection \<open>Rounding\<close>

lemma ilog2_bounds:
  "0 < n \<Longrightarrow> 2 ^ nat (ilog2 n) \<le> n \<and> n < 2 * 2 ^ nat (ilog2 n) \<and> 0 \<le> ilog2 n"
proof (induction n rule: ilog2.induct)
  case (1 n)
  show ?case
  proof (cases "n < 2")
    case True
    with "1.prems" have "n = 1" by simp
    then show ?thesis by (subst (1 2 3) ilog2.simps) simp
  next
    case False
    then have pos: "0 < n div 2" by simp
    from "1.IH" [OF False pos] have ih: "2 ^ nat (ilog2 (n div 2)) \<le> n div 2"
      "n div 2 < 2 * 2 ^ nat (ilog2 (n div 2))" "0 \<le> ilog2 (n div 2)" by simp_all
    have e: "ilog2 n = 1 + ilog2 (n div 2)" using False by (subst ilog2.simps) simp
    have p: "(2::int) ^ nat (1 + ilog2 (n div 2)) = 2 * 2 ^ nat (ilog2 (n div 2))"
      using ih(3) by (simp add: nat_add_distrib)
    show ?thesis unfolding e p using ih by auto
  qed
qed

lemma ilog2_eqI:
  assumes "2 ^ k \<le> n" and "n < 2 * 2 ^ k"
  shows "ilog2 n = int k"
proof -
  have "(0::int) < 2 ^ k" by simp
  with assms(1) have n: "0 < n" by linarith
  from ilog2_bounds [OF n] have b: "2 ^ nat (ilog2 n) \<le> n" "n < 2 * 2 ^ nat (ilog2 n)" "0 \<le> ilog2 n"
    by simp_all
  have "(2::int) ^ k < 2 ^ Suc (nat (ilog2 n))" using assms(1) b(2) by simp
  then have "k < Suc (nat (ilog2 n))" by (simp only: power_strict_increasing_iff [of 2] rel_simps)
  moreover have "(2::int) ^ nat (ilog2 n) < 2 ^ Suc k" using assms(2) b(1) by simp
  then have "nat (ilog2 n) < Suc k" by (simp only: power_strict_increasing_iff [of 2] rel_simps)
  ultimately show ?thesis using b(3) by simp
qed

lemma floor_log2_int:
  assumes "2 ^ k \<le> n" and "n < 2 * 2 ^ k"
  shows "floor_log2 (of_int n) = int k"
proof -
  have "(1::int) \<le> 2 ^ k" by simp
  with assms(1) have "1 \<le> n" by linarith
  then have "(1::rat) \<le> of_int n" by simp
  then show ?thesis using ilog2_eqI [OF assms] by (simp add: floor_log2_def)
qed

lemma round_half_even_int: "round_half_even (of_int n) = n"
  by (simp add: round_half_even_def)

lemma round_half_even_near:
  assumes "of_int r - 1 / 2 < x" and "x < of_int r + 1 / 2"
  shows "round_half_even x = r"
proof -
  have "\<lfloor>x\<rfloor> = r \<or> \<lfloor>x\<rfloor> = r - 1" using assms by linarith
  then show ?thesis
  proof
    assume f: "\<lfloor>x\<rfloor> = r"
    then have "x - of_int r < 1 / 2" using assms by simp
    then show ?thesis using f by (simp add: round_half_even_def)
  next
    assume f: "\<lfloor>x\<rfloor> = r - 1"
    then have "1 / 2 < x - of_int (r - 1)" using assms by simp
    then show ?thesis using f by (simp add: round_half_even_def Let_def)
  qed
qed

lemma round_half_even_tie:
  assumes "x = of_int f + 1 / 2"
  shows "round_half_even x = (if even f then f else f + 1)"
proof -
  have "\<lfloor>x\<rfloor> = f" unfolding assms by linarith
  moreover have "x - of_int f = 1 / 2" using assms by simp
  ultimately show ?thesis by (simp add: round_half_even_def)
qed

text \<open>An integer of magnitude at most \<open>2\<^sup>5\<^sup>3\<close> is a double, and rounds to itself.\<close>

lemma double_round_exact:
  assumes "0 \<le> n" and "n \<le> 2 ^ 53"
  shows "double_round (of_int n) = Num (of_int n)"
proof (cases "n = 0")
  case True
  then show ?thesis by (simp add: double_round_def)
next
  case False
  then have n: "0 < n" using assms(1) by simp
  define k where "k = nat (ilog2 n)"
  from ilog2_bounds [OF n] have b: "2 ^ k \<le> n" "n < 2 * 2 ^ k" by (simp_all add: k_def)
  have fl: "floor_log2 \<bar>of_int n\<bar> = int k"
    using floor_log2_int [OF b] assms(1) by simp
  have "(2::int) ^ k \<le> 2 ^ 53" using b(1) assms(2) by linarith
  then have k53: "k \<le> 53" by (simp only: power_increasing_iff [of 2] rel_simps)
  have big: "\<bar>rat_of_int n\<bar> < 2 ^ 1024"
  proof -
    have "n < 2 ^ 1024" using assms(2) by (rule order_le_less_trans) simp
    then have "rat_of_int n < of_int (2 ^ 1024)" by (simp only: of_int_less_iff)
    then show ?thesis using assms(1) by simp
  qed
  have rnd: "of_int (round_half_even (of_int n / pow2 (int k - 52))) * pow2 (int k - 52)
      = rat_of_int n"
  proof (cases "k \<le> 52")
    case True
    then have p: "pow2 (int k - 52) = 1 / 2 ^ (52 - k)"
      by (cases "k = 52") (simp_all add: pow2_def nat_diff_distrib)
    have "rat_of_int n / (1 / 2 ^ (52 - k)) = of_int (n * 2 ^ (52 - k))" by simp
    then have "round_half_even (of_int n / pow2 (int k - 52)) = n * 2 ^ (52 - k)"
      unfolding p by (simp only: round_half_even_int)
    then show ?thesis unfolding p by simp
  next
    case False
    then have k: "k = 53" using k53 by simp
    then have "n = 2 ^ 53" using b(1) assms(2) by simp
    then show ?thesis using k round_half_even_int [of "2 ^ 52"] by (simp add: pow2_def)
  qed
  have nz: "rat_of_int n \<noteq> 0" using n by simp
  have mx: "max (int k) (- 1022) = int k" by simp
  show ?thesis
    unfolding double_round_def Let_def fl mx rnd using nz big by simp
qed

lemma num_add_exact:
  assumes "a \<in> \<int>" "b \<in> \<int>" "0 \<le> a + b" "a + b \<le> 2 ^ 53"
  shows "num_add (Num a) (Num b) = Num (a + b)"
proof -
  from assms(1,2) have "a + b \<in> \<int>" by simp
  then obtain n where n: "a + b = of_int n" by (auto elim: Ints_cases)
  have "0 \<le> n" using assms(3) n by simp
  moreover have "n \<le> 2 ^ 53"
  proof -
    have "rat_of_int n \<le> of_int (2 ^ 53)" using assms(4) n by simp
    then show ?thesis by (simp only: of_int_le_iff)
  qed
  ultimately show ?thesis using double_round_exact [of n] n by simp
qed

subsection \<open>Comparison and the largest amount\<close>

lemma valid_tiers_iff:
  "valid_tiers tiers \<longleftrightarrow>
     tiers \<noteq> [] \<and> (\<forall>t\<in>set tiers. 0 < rp t \<and> num_less (Num 0) (price t))"
  by (simp add: valid_tiers_def list_all_iff)

lemma exact_prices_D:
  assumes "exact_prices targetRP tiers" and "t \<in> set tiers"
  shows "\<exists>p. price t = Num p \<and> price_val t = p \<and> p \<in> \<int> \<and> 0 < p \<and>
    p * of_int (targetRP + maxRP_of tiers) \<le> 2 ^ 53"
proof -
  from assms have c: "case price t of
      Num r \<Rightarrow> of_int \<lfloor>r\<rfloor> = r \<and> 0 < r \<and> r * of_int (targetRP + maxRP_of tiers) \<le> 2 ^ 53
    | _ \<Rightarrow> False"
    by (simp add: exact_prices_def list_all_iff)
  then obtain r where r: "price t = Num r" by (cases "price t") simp_all
  with c have h: "of_int \<lfloor>r\<rfloor> = r" "0 < r" "r * of_int (targetRP + maxRP_of tiers) \<le> 2 ^ 53"
    by simp_all
  have "rat_of_int \<lfloor>r\<rfloor> \<in> \<int>" by (rule Ints_of_int)
  then have "r \<in> \<int>" unfolding h(1) .
  with r h show ?thesis by (simp add: price_val_def)
qed

lemma num_less_irrefl: "\<not> num_less a a"
  by (cases a) auto

lemma num_less_trans: "num_less a b \<Longrightarrow> num_less b c \<Longrightarrow> num_less a c"
  by (cases a; cases b; cases c) auto

lemma num_less_not_Infinity: "num_less a b \<Longrightarrow> a \<noteq> Infinity"
  by (cases a; cases b) auto

lemma num_less_Infinity_iff: "num_less (Num a) b \<longleftrightarrow> b = Infinity \<or> (\<exists>x. b = Num x \<and> a < x)"
  by (cases b) auto

lemma foldl_max_ge: "m \<le> foldl (\<lambda>mx t. max mx (rp t)) m tiers"
  by (induction tiers arbitrary: m) (auto intro: order_trans [OF max.cobounded1])

lemma foldl_max_mem: "t \<in> set tiers \<Longrightarrow> rp t \<le> foldl (\<lambda>mx t. max mx (rp t)) m tiers"
proof (induction tiers arbitrary: m)
  case Nil
  then show ?case by simp
next
  case (Cons a tiers)
  show ?case
  proof (cases "t = a")
    case True
    have "rp a \<le> max m (rp a)" by simp
    also have "\<dots> \<le> foldl (\<lambda>mx t. max mx (rp t)) (max m (rp a)) tiers" by (rule foldl_max_ge)
    finally show ?thesis using True by simp
  next
    case False
    with Cons show ?thesis by simp
  qed
qed

lemma foldl_max_Max: "foldl (\<lambda>mx t. max mx (rp t)) m tiers = Max (insert m (rp ` set tiers))"
proof (induction tiers arbitrary: m)
  case Nil
  then show ?case by simp
next
  case (Cons a tiers)
  have "Max (insert (max m (rp a)) (rp ` set tiers)) = Max (insert m (insert (rp a) (rp ` set tiers)))"
    by (cases "rp ` set tiers = {}") (simp_all add: max.assoc)
  with Cons show ?case by simp
qed

lemma maxRP_of_nonneg: "0 \<le> maxRP_of tiers"
  unfolding maxRP_of_def by (rule foldl_max_ge)

lemma maxRP_of_ge: "t \<in> set tiers \<Longrightarrow> rp t \<le> maxRP_of tiers"
  unfolding maxRP_of_def by (rule foldl_max_mem)

lemma maxRP_of_Max: "maxRP_of tiers = Max (insert 0 (rp ` set tiers))"
  unfolding maxRP_of_def by (rule foldl_max_Max)

lemma maxRP_of_Max_pos:
  assumes "tiers \<noteq> []" and "\<forall>t\<in>set tiers. 0 < rp t"
  shows "maxRP_of tiers = Max (rp ` set tiers)"
proof -
  have fin: "finite (rp ` set tiers)" and ne: "rp ` set tiers \<noteq> {}" using assms by auto
  have "0 \<le> Max (rp ` set tiers)"
  proof -
    obtain t where "t \<in> set tiers" using assms(1) by (cases tiers) auto
    then have "rp t \<le> Max (rp ` set tiers)" and "0 < rp t" using assms(2) by auto
    then show ?thesis by linarith
  qed
  then show ?thesis using fin ne by (simp add: maxRP_of_Max max_def)
qed

subsection \<open>The inner loop\<close>

lemma tierLoop_length:
  "tierLoop maxP i ts (dp, parent) = (dp', parent') \<Longrightarrow>
   length dp' = length dp \<and> length parent' = length parent"
  by (induction maxP i ts "(dp, parent)" arbitrary: dp parent rule: tierLoop.induct)
     (auto simp: Let_def split: if_splits)

text \<open>An entry is left as it is or strictly lowered.\<close>

lemma tierLoop_mono:
  "tierLoop maxP i ts (dp, parent) = (dp', parent') \<Longrightarrow> k < length dp \<Longrightarrow>
   dp' ! k = dp ! k \<or> num_less (dp' ! k) (dp ! k)"
proof (induction maxP i ts "(dp, parent)" arbitrary: dp parent rule: tierLoop.induct)
  case (1 maxP i tb)
  then show ?case by simp
next
  case (2 maxP i tier rest dp parent)
  let ?n = "i + rp tier"
  let ?v = "num_add (dp ! nat i) (price tier)"
  show ?case
  proof (cases "?n \<le> maxP \<and> 0 \<le> ?n \<and> num_less ?v (dp ! nat ?n)")
    case True
    then have run: "tierLoop maxP i rest (dp[nat ?n := ?v], parent[nat ?n := Some (tier, i)]) = (dp', parent')"
      using "2.prems"(1) by (simp add: Let_def)
    have ih: "dp' ! k = dp[nat ?n := ?v] ! k \<or> num_less (dp' ! k) (dp[nat ?n := ?v] ! k)"
      using "2.hyps"(1) [OF refl _ run] True "2.prems"(2) by simp
    show ?thesis
    proof (cases "k = nat ?n")
      case k: True
      then have upd: "dp[nat ?n := ?v] ! k = ?v" using "2.prems"(2) by simp
      have lt: "num_less ?v (dp ! k)" using True k by simp
      from ih show ?thesis unfolding upd
      proof
        assume "dp' ! k = ?v"
        with lt show ?thesis by simp
      next
        assume "num_less (dp' ! k) ?v"
        with lt show ?thesis using num_less_trans by blast
      qed
    next
      case False
      with ih show ?thesis by simp
    qed
  next
    case False
    then have run: "tierLoop maxP i rest (dp, parent) = (dp', parent')"
      using "2.prems"(1) by (auto simp add: Let_def)
    show ?thesis using "2.hyps"(2) [OF refl _ run] False "2.prems"(2) by auto
  qed
qed

text \<open>Positive amounts: entries at indices up to \<open>i\<close> are not touched.\<close>

lemma tierLoop_low:
  "tierLoop maxP i ts (dp, parent) = (dp', parent') \<Longrightarrow> \<forall>t\<in>set ts. 0 < rp t \<Longrightarrow> 0 \<le> i \<Longrightarrow>
   k \<le> nat i \<Longrightarrow> dp' ! k = dp ! k \<and> parent' ! k = parent ! k"
proof (induction maxP i ts "(dp, parent)" arbitrary: dp parent rule: tierLoop.induct)
  case (1 maxP i tb)
  then show ?case by simp
next
  case (2 maxP i tier rest dp parent)
  let ?n = "i + rp tier"
  let ?v = "num_add (dp ! nat i) (price tier)"
  have ne: "nat ?n \<noteq> k" using "2.prems" by auto
  show ?case
  proof (cases "?n \<le> maxP \<and> 0 \<le> ?n \<and> num_less ?v (dp ! nat ?n)")
    case True
    then have run: "tierLoop maxP i rest (dp[nat ?n := ?v], parent[nat ?n := Some (tier, i)]) = (dp', parent')"
      using "2.prems"(1) by (simp add: Let_def)
    show ?thesis using "2.hyps"(1) [OF refl _ run] True "2.prems"(2,3,4) ne by simp
  next
    case False
    then have run: "tierLoop maxP i rest (dp, parent) = (dp', parent')"
      using "2.prems"(1) by (auto simp add: Let_def)
    show ?thesis using "2.hyps"(2) [OF refl _ run] False "2.prems"(2,3,4) by auto
  qed
qed

lemma tierLoop_relax:
  "tierLoop maxP i ts (dp, parent) = (dp', parent') \<Longrightarrow> \<forall>t\<in>set ts. 0 < rp t \<Longrightarrow> 0 \<le> i \<Longrightarrow>
   t \<in> set ts \<Longrightarrow> i + rp t \<le> maxP \<Longrightarrow> nat (i + rp t) < length dp \<Longrightarrow>
   \<not> num_less (num_add (dp ! nat i) (price t)) (dp' ! nat (i + rp t))"
proof (induction maxP i ts "(dp, parent)" arbitrary: dp parent rule: tierLoop.induct)
  case (1 maxP i tb)
  then show ?case by simp
next
  case (2 maxP i tier rest dp parent)
  let ?n = "i + rp tier"
  let ?v = "num_add (dp ! nat i) (price tier)"
  let ?c = "?n \<le> maxP \<and> 0 \<le> ?n \<and> num_less ?v (dp ! nat ?n)"
  define dp1 where "dp1 = (if ?c then dp[nat ?n := ?v] else dp)"
  define parent1 where "parent1 = (if ?c then parent[nat ?n := Some (tier, i)] else parent)"
  have run: "tierLoop maxP i rest (dp1, parent1) = (dp', parent')"
    using "2.prems"(1) unfolding dp1_def parent1_def by (auto simp: Let_def)
  have pos: "\<forall>t\<in>set rest. 0 < rp t" and postier: "0 < rp tier" using "2.prems"(2) by auto
  have len1: "length dp1 = length dp" unfolding dp1_def by simp
  have same_i: "dp1 ! nat i = dp ! nat i"
    using postier "2.prems"(3) unfolding dp1_def by auto
  show ?case
  proof (cases "t = tier")
    case True
    have a: "\<not> num_less ?v (dp1 ! nat ?n)"
      using "2.prems"(5,6) postier "2.prems"(3) True unfolding dp1_def
      by (auto simp: num_less_irrefl)
    have "dp' ! nat ?n = dp1 ! nat ?n \<or> num_less (dp' ! nat ?n) (dp1 ! nat ?n)"
      using tierLoop_mono [OF run] "2.prems"(6) True len1 by simp
    then have "\<not> num_less ?v (dp' ! nat ?n)"
    proof
      assume "dp' ! nat ?n = dp1 ! nat ?n"
      with a show ?thesis by simp
    next
      assume "num_less (dp' ! nat ?n) (dp1 ! nat ?n)"
      with a show ?thesis using num_less_trans by blast
    qed
    then show ?thesis using True by simp
  next
    case False
    then have mem: "t \<in> set rest" using "2.prems"(4) by simp
    have "\<not> num_less (num_add (dp1 ! nat i) (price t)) (dp' ! nat (i + rp t))"
    proof (cases ?c)
      case True
      then have eq: "dp1 = dp[nat ?n := ?v]" "parent1 = parent[nat ?n := Some (tier, i)]"
        unfolding dp1_def parent1_def by simp_all
      show ?thesis
        using "2.hyps"(1) [OF refl True run [unfolded eq] pos "2.prems"(3) mem "2.prems"(5)]
          "2.prems"(6) eq by simp
    next
      case False
      then have eq: "dp1 = dp" "parent1 = parent"
        by (auto simp: dp1_def parent1_def)
      show ?thesis
        using "2.hyps"(2) [OF refl False run [unfolded eq] pos "2.prems"(3) mem "2.prems"(5)]
          "2.prems"(6) eq by simp
    qed
    then show ?thesis using same_i by simp
  qed
qed

lemma tierLoop_entry:
  "tierLoop maxP i ts (dp, parent) = (dp', parent') \<Longrightarrow> \<forall>t\<in>set ts. 0 < rp t \<Longrightarrow> 0 \<le> i \<Longrightarrow>
   length parent = length dp \<Longrightarrow> k < length dp \<Longrightarrow>
   (dp' ! k = dp ! k \<and> parent' ! k = parent ! k) \<or>
   (\<exists>t\<in>set ts. int k = i + rp t \<and> parent' ! k = Some (t, i) \<and>
       dp' ! k = num_add (dp ! nat i) (price t) \<and> num_less (dp' ! k) (dp ! k))"
proof (induction maxP i ts "(dp, parent)" arbitrary: dp parent rule: tierLoop.induct)
  case (1 maxP i tb)
  then show ?case by simp
next
  case (2 maxP i tier rest dp parent)
  let ?n = "i + rp tier"
  let ?v = "num_add (dp ! nat i) (price tier)"
  let ?c = "?n \<le> maxP \<and> 0 \<le> ?n \<and> num_less ?v (dp ! nat ?n)"
  have pos: "\<forall>t\<in>set rest. 0 < rp t" and postier: "0 < rp tier" using "2.prems"(2) by auto
  show ?case
  proof (cases ?c)
    case True
    let ?dp1 = "dp[nat ?n := ?v]"
    let ?parent1 = "parent[nat ?n := Some (tier, i)]"
    have run: "tierLoop maxP i rest (?dp1, ?parent1) = (dp', parent')"
      using "2.prems"(1) True by (simp add: Let_def)
    have same_i: "?dp1 ! nat i = dp ! nat i" using postier "2.prems"(3) by auto
    have step: "?dp1 ! k = dp ! k \<or> num_less (?dp1 ! k) (dp ! k)"
      using True "2.prems"(5) by (cases "k = nat ?n") simp_all
    have "(dp' ! k = ?dp1 ! k \<and> parent' ! k = ?parent1 ! k) \<or>
      (\<exists>t\<in>set rest. int k = i + rp t \<and> parent' ! k = Some (t, i) \<and>
         dp' ! k = num_add (?dp1 ! nat i) (price t) \<and> num_less (dp' ! k) (?dp1 ! k))"
      using "2.hyps"(1) [OF refl True run pos "2.prems"(3)] "2.prems"(4,5) by simp
    then show ?thesis
    proof
      assume a: "dp' ! k = ?dp1 ! k \<and> parent' ! k = ?parent1 ! k"
      show ?thesis
      proof (cases "k = nat ?n")
        case k: True
        then have "int k = ?n" using \<open>?c\<close> by simp
        moreover have "num_less (dp' ! k) (dp ! k)" using a k True "2.prems"(5) by simp
        ultimately show ?thesis using a k "2.prems"(4,5) by auto
      next
        case False
        then show ?thesis using a by simp
      qed
    next
      assume "\<exists>t\<in>set rest. int k = i + rp t \<and> parent' ! k = Some (t, i) \<and>
         dp' ! k = num_add (?dp1 ! nat i) (price t) \<and> num_less (dp' ! k) (?dp1 ! k)"
      then obtain t where t: "t \<in> set rest" "int k = i + rp t" "parent' ! k = Some (t, i)"
        "dp' ! k = num_add (?dp1 ! nat i) (price t)" "num_less (dp' ! k) (?dp1 ! k)"
        by blast
      have "num_less (dp' ! k) (dp ! k)"
        using step t(5) num_less_trans by auto
      with t show ?thesis unfolding same_i by auto
    qed
  next
    case False
    then have run: "tierLoop maxP i rest (dp, parent) = (dp', parent')"
      using "2.prems"(1) by (auto simp add: Let_def)
    show ?thesis
      using "2.hyps"(2) [OF refl False run pos "2.prems"(3,4,5)] by auto
  qed
qed

subsection \<open>The fill, for any prices\<close>

lemma tierLoop_linked_finite:
  "linked_finite (dp, parent) \<Longrightarrow> linked_finite (tierLoop maxP i ts (dp, parent))"
proof (induction maxP i ts "(dp, parent)" arbitrary: dp parent rule: tierLoop.induct)
  case (1 maxP i tb)
  then show ?case by simp
next
  case (2 maxP i tier rest dp parent)
  let ?n = "i + rp tier"
  let ?v = "num_add (dp ! nat i) (price tier)"
  let ?c = "?n \<le> maxP \<and> 0 \<le> ?n \<and> num_less ?v (dp ! nat ?n)"
  show ?case
  proof (cases ?c)
    case True
    then have vfin: "?v \<noteq> Infinity" using num_less_not_Infinity by blast
    let ?dp1 = "dp[nat ?n := ?v]"
    let ?parent1 = "parent[nat ?n := Some (tier, i)]"
    have lf: "linked_finite (?dp1, ?parent1)"
      unfolding linked_finite_def
    proof (intro conjI allI impI)
      show "length (snd (?dp1, ?parent1)) = length (fst (?dp1, ?parent1))"
        using "2.prems"(1) by (simp add: linked_finite_def)
    next
      fix k
      assume k: "k < length (fst (?dp1, ?parent1))" and p: "snd (?dp1, ?parent1) ! k \<noteq> None"
      show "fst (?dp1, ?parent1) ! k \<noteq> Infinity"
      proof (cases "k = nat ?n")
        case True
        then show ?thesis using k vfin by simp
      next
        case False
        then show ?thesis using k p "2.prems"(1) by (simp add: linked_finite_def)
      qed
    qed
    show ?thesis using "2.hyps"(1) [OF refl True lf] True by (simp add: Let_def)
  next
    case False
    show ?thesis using "2.hyps"(2) [OF refl False "2.prems"] False by (auto simp: Let_def)
  qed
qed

lemma tierLoop_links_struct:
  assumes ls: "links_struct tiers (dp, parent)" and sub: "set ts \<subseteq> set tiers"
    and pos: "\<forall>t\<in>set ts. 0 < rp t" and i: "0 \<le> i"
  shows "links_struct tiers (tierLoop maxP i ts (dp, parent))"
proof -
  obtain dp' parent' where run: "tierLoop maxP i ts (dp, parent) = (dp', parent')"
    by (cases "tierLoop maxP i ts (dp, parent)")
  have len: "length parent = length dp" using ls by (simp add: links_struct_def)
  have len': "length dp' = length dp" "length parent' = length parent"
    using tierLoop_length [OF run] by simp_all
  have "\<forall>k < length dp'. \<forall>t prev. parent' ! k = Some (t, prev) \<longrightarrow>
        t \<in> set tiers \<and> 0 \<le> prev \<and> prev < int k \<and> prev + rp t = int k"
  proof (intro allI impI)
    fix k t prev
    assume k: "k < length dp'" and p: "parent' ! k = Some (t, prev)"
    then have k': "k < length dp" using len' by simp
    from tierLoop_entry [OF run pos i len k']
    show "t \<in> set tiers \<and> 0 \<le> prev \<and> prev < int k \<and> prev + rp t = int k"
    proof
      assume "dp' ! k = dp ! k \<and> parent' ! k = parent ! k"
      then have "parent ! k = Some (t, prev)" using p by simp
      then show ?thesis using ls k' unfolding links_struct_def fst_conv snd_conv by blast
    next
      assume "\<exists>t\<in>set ts. int k = i + rp t \<and> parent' ! k = Some (t, i) \<and>
       dp' ! k = num_add (dp ! nat i) (price t) \<and> num_less (dp' ! k) (dp ! k)"
      then obtain u where u: "u \<in> set ts" "int k = i + rp u" "parent' ! k = Some (u, i)" by blast
      then have "u = t" "i = prev" using p by simp_all
      moreover have "0 < rp u" using pos u(1) by simp
      ultimately show ?thesis using u sub i by auto
    qed
  qed
  moreover have "length parent' = length dp'" using len len' by simp
  ultimately have "links_struct tiers (dp', parent')"
    unfolding links_struct_def fst_conv snd_conv by blast
  then show ?thesis using run by simp
qed

lemma fillLoop_linked_finite:
  "linked_finite tb \<Longrightarrow> linked_finite (fillLoop maxP tiers i tb)"
proof (induction maxP tiers i tb rule: fillLoop.induct)
  case (1 maxP tiers i tb)
  show ?case
  proof (cases "i < maxP")
    case True
    have "linked_finite (if fst tb ! nat i = Infinity then tb else tierLoop maxP i tiers tb)"
      using "1.prems" tierLoop_linked_finite [of "fst tb" "snd tb" maxP i tiers] by simp
    from "1.IH" [OF True this] True show ?thesis by (subst fillLoop.simps) simp
  next
    case False
    then show ?thesis using "1.prems" by (subst fillLoop.simps) simp
  qed
qed

lemma fillLoop_links_struct:
  "links_struct tiers tb \<Longrightarrow> \<forall>t\<in>set tiers. 0 < rp t \<Longrightarrow> 0 \<le> i \<Longrightarrow>
   links_struct tiers (fillLoop maxP tiers i tb)"
proof (induction maxP tiers i tb rule: fillLoop.induct)
  case (1 maxP tiers i tb)
  show ?case
  proof (cases "i < maxP")
    case True
    have "links_struct tiers (if fst tb ! nat i = Infinity then tb else tierLoop maxP i tiers tb)"
      using "1.prems" tierLoop_links_struct [of tiers "fst tb" "snd tb" tiers i maxP] by simp
    from "1.IH" [OF True this "1.prems"(2)] "1.prems"(3) True
    show ?thesis by (subst fillLoop.simps) simp
  next
    case False
    then show ?thesis using "1.prems" by (subst fillLoop.simps) simp
  qed
qed

lemma fillLoop_length:
  "fillLoop maxP tiers i tb = tb' \<Longrightarrow>
   length (fst tb') = length (fst tb) \<and> length (snd tb') = length (snd tb)"
proof (induction maxP tiers i tb arbitrary: tb' rule: fillLoop.induct)
  case (1 maxP tiers i tb)
  show ?case
  proof (cases "i < maxP")
    case True
    let ?tb1 = "if fst tb ! nat i = Infinity then tb else tierLoop maxP i tiers tb"
    have l1: "length (fst ?tb1) = length (fst tb) \<and> length (snd ?tb1) = length (snd tb)"
      using tierLoop_length [of maxP i tiers "fst tb" "snd tb" "fst (tierLoop maxP i tiers tb)" "snd (tierLoop maxP i tiers tb)"]
      by simp
    have "fillLoop maxP tiers (i + 1) ?tb1 = tb'"
      using "1.prems" True by (subst (asm) fillLoop.simps) simp
    from "1.IH" [OF True this] l1 show ?thesis by simp
  next
    case False
    then show ?thesis using "1.prems" by (subst (asm) fillLoop.simps) simp
  qed
qed

subsection \<open>The allocation\<close>

lemma buildTable_RangeError:
  "4294967295 < maxP + 1 \<Longrightarrow> buildTable maxP tiers = Inl RangeError"
  by (simp add: buildTable_def new_Array_def)

lemma buildTable_Inr:
  assumes "0 \<le> maxP" and "maxP + 1 \<le> 4294967295"
  shows "buildTable maxP tiers =
    Inr (fillLoop maxP tiers 0
      ((replicate (nat (maxP + 1)) Infinity)[0 := Num 0], replicate (nat (maxP + 1)) None))"
  using assms by (simp add: buildTable_def new_Array_def)

lemma buildTable_facts:
  assumes "buildTable maxP tiers = Inr (dp, parent)" and "0 \<le> maxP"
  shows "length dp = nat (maxP + 1)" and "length parent = nat (maxP + 1)"
    and "linked_finite (dp, parent)"
    and "\<forall>t\<in>set tiers. 0 < rp t \<Longrightarrow> links_struct tiers (dp, parent)"
    and "maxP + 1 \<le> 4294967295"
proof -
  show ok: "maxP + 1 \<le> 4294967295"
    using assms buildTable_RangeError [of maxP tiers] by (cases "maxP + 1 \<le> 4294967295") auto
  let ?init = "((replicate (nat (maxP + 1)) Infinity)[0 := Num 0],
    replicate (nat (maxP + 1)) (None :: parent_entry))"
  have tb: "fillLoop maxP tiers 0 ?init = (dp, parent)"
    using buildTable_Inr [OF assms(2) ok, of tiers] assms(1) by simp
  from fillLoop_length [OF tb]
  show "length dp = nat (maxP + 1)" and "length parent = nat (maxP + 1)" by simp_all
  have "linked_finite ?init" by (simp add: linked_finite_def)
  from fillLoop_linked_finite [OF this, of maxP tiers 0]
  show "linked_finite (dp, parent)" unfolding tb .
  assume pos: "\<forall>t\<in>set tiers. 0 < rp t"
  have "links_struct tiers ?init" by (simp add: links_struct_def)
  from fillLoop_links_struct [OF this pos, of 0 maxP]
  show "links_struct tiers (dp, parent)" unfolding tb by simp
qed

subsection \<open>The invariant of the fill, for exact prices\<close>

lemma total_amount_empty [simp]: "total_amount {#} = 0"
  by (simp add: total_amount_def)

lemma total_amount_add [simp]: "total_amount (add_mset t M) = rp t + total_amount M"
  by (simp add: total_amount_def)

lemma total_cost_empty [simp]: "total_cost {#} = 0"
  by (simp add: total_cost_def)

lemma total_cost_add [simp]: "total_cost (add_mset t M) = price_val t + total_cost M"
  by (simp add: total_cost_def)

lemma total_amount_nonneg:
  "\<forall>t\<in>set tiers. 0 < rp t \<Longrightarrow> set_mset M \<subseteq> set tiers \<Longrightarrow> 0 \<le> total_amount M"
  by (induction M) auto

lemma total_amount_pos:
  "\<forall>t\<in>set tiers. 0 < rp t \<Longrightarrow> set_mset M \<subseteq> set tiers \<Longrightarrow> M \<noteq> {#} \<Longrightarrow> 0 < total_amount M"
  by (induction M) (auto dest: total_amount_nonneg [rotated] simp: add_pos_nonneg)

lemma exact_step:
  assumes e: "entry_ok maxP i c" and p: "p \<in> \<int>" "0 < p" "p * of_int maxP \<le> 2 ^ 53"
    and i: "i < maxP" "i < j" "0 \<le> i"
  shows "num_add (Num c) (Num p) = Num (c + p)" and "entry_ok maxP j (c + p)"
proof -
  let ?m = "rat_of_int maxP"
  have c: "c \<in> \<int>" "0 \<le> c" "c * ?m \<le> of_int i * 2 ^ 53" using e by (simp_all add: entry_ok_def)
  have "(c + p) * ?m = c * ?m + p * ?m" by (simp add: algebra_simps)
  also have "\<dots> \<le> of_int i * 2 ^ 53 + 2 ^ 53" using c(3) p(3) by linarith
  also have "\<dots> = of_int (i + 1) * 2 ^ 53" by (simp add: algebra_simps)
  finally have s: "(c + p) * ?m \<le> of_int (i + 1) * 2 ^ 53" .
  have "i + 1 \<le> maxP" using i(1) by simp
  then have "rat_of_int (i + 1) \<le> ?m" by (simp only: of_int_le_iff)
  then have "rat_of_int (i + 1) * 2 ^ 53 \<le> ?m * 2 ^ 53" by (intro mult_right_mono) simp_all
  with s have "(c + p) * ?m \<le> 2 ^ 53 * ?m" by (simp add: mult.commute)
  moreover have "0 < ?m" using i(1,3) by simp
  ultimately have le: "c + p \<le> 2 ^ 53" by (simp add: mult_le_cancel_right)
  have nonneg: "0 \<le> c + p" using c(2) p(2) by simp
  show "num_add (Num c) (Num p) = Num (c + p)"
    using num_add_exact [OF c(1) p(1) nonneg le] .
  have "i + 1 \<le> j" using i(2) by simp
  then have "rat_of_int (i + 1) \<le> of_int j" by (simp only: of_int_le_iff)
  then have "rat_of_int (i + 1) * 2 ^ 53 \<le> of_int j * 2 ^ 53" by (intro mult_right_mono) simp_all
  with s have "(c + p) * ?m \<le> of_int j * 2 ^ 53" by linarith
  then show "entry_ok maxP j (c + p)" using c(1) p(1) nonneg by (simp add: entry_ok_def)
qed

lemma links_ok_mono:
  assumes "links_ok tiers maxP i tb" and "i \<le> i'"
  shows "links_ok tiers maxP i' tb"
  unfolding links_ok_def
proof (intro conjI allI impI)
  fix k :: int
  assume k: "0 < k \<and> k \<le> maxP"
  with assms(1) have "(fst tb ! nat k = Infinity \<and> snd tb ! nat k = None) \<or>
         (\<exists>t prev c. snd tb ! nat k = Some (t, prev) \<and> t \<in> set tiers \<and> 0 \<le> prev \<and> prev < i \<and>
            prev + rp t = k \<and> fst tb ! nat prev = Num c \<and>
            fst tb ! nat k = Num (c + price_val t) \<and> entry_ok maxP k (c + price_val t))"
    unfolding links_ok_def by blast
  then show "(fst tb ! nat k = Infinity \<and> snd tb ! nat k = None) \<or>
         (\<exists>t prev c. snd tb ! nat k = Some (t, prev) \<and> t \<in> set tiers \<and> 0 \<le> prev \<and> prev < i' \<and>
            prev + rp t = k \<and> fst tb ! nat prev = Num c \<and>
            fst tb ! nat k = Num (c + price_val t) \<and> entry_ok maxP k (c + price_val t))"
  proof
    assume "fst tb ! nat k = Infinity \<and> snd tb ! nat k = None"
    then show ?thesis by blast
  next
    assume "\<exists>t prev c. snd tb ! nat k = Some (t, prev) \<and> t \<in> set tiers \<and> 0 \<le> prev \<and> prev < i \<and>
            prev + rp t = k \<and> fst tb ! nat prev = Num c \<and>
            fst tb ! nat k = Num (c + price_val t) \<and> entry_ok maxP k (c + price_val t)"
    then obtain t prev c where "snd tb ! nat k = Some (t, prev) \<and> t \<in> set tiers \<and> 0 \<le> prev \<and> prev < i \<and>
            prev + rp t = k \<and> fst tb ! nat prev = Num c \<and>
            fst tb ! nat k = Num (c + price_val t) \<and> entry_ok maxP k (c + price_val t)"
      by blast
    with assms(2) have "snd tb ! nat k = Some (t, prev) \<and> t \<in> set tiers \<and> 0 \<le> prev \<and> prev < i' \<and>
            prev + rp t = k \<and> fst tb ! nat prev = Num c \<and>
            fst tb ! nat k = Num (c + price_val t) \<and> entry_ok maxP k (c + price_val t)"
      by simp
    then show ?thesis by blast
  qed
qed (use assms(1) in \<open>simp_all add: links_ok_def\<close>)

lemma links_ok_entry:
  assumes lk: "links_ok tiers maxP i (dp, parent)" and k: "0 \<le> k" "k \<le> maxP"
  shows "dp ! nat k = Infinity \<or> (\<exists>v. dp ! nat k = Num v \<and> entry_ok maxP k v)"
proof (cases "k = 0")
  case True
  then show ?thesis using lk by (simp add: links_ok_def entry_ok_def)
next
  case False
  then have "0 < k \<and> k \<le> maxP" using k by simp
  then have "(dp ! nat k = Infinity \<and> parent ! nat k = None) \<or>
         (\<exists>t prev c. parent ! nat k = Some (t, prev) \<and> t \<in> set tiers \<and> 0 \<le> prev \<and> prev < i \<and>
            prev + rp t = k \<and> dp ! nat prev = Num c \<and>
            dp ! nat k = Num (c + price_val t) \<and> entry_ok maxP k (c + price_val t))"
    using lk unfolding links_ok_def fst_conv snd_conv by blast
  then show ?thesis by blast
qed

lemma covers_reach:
  assumes lk: "links_ok tiers maxP i tb" and cv: "covers tiers maxP i (fst tb)"
    and pos: "\<forall>t\<in>set tiers. 0 < rp t"
    and M: "set_mset M \<subseteq> set tiers" and le: "total_amount M \<le> i" "i \<le> maxP"
  shows "\<exists>c. fst tb ! nat (total_amount M) = Num c \<and> c \<le> total_cost M"
proof (cases M)
  case empty
  then show ?thesis using lk by (simp add: links_ok_def)
next
  case (add t M0)
  have M0: "set_mset M0 \<subseteq> set tiers" and t: "t \<in> set tiers" using M add by auto
  have "0 < rp t" using pos t by simp
  then have "total_amount M0 < i" using le add by simp
  moreover have "total_amount M0 + rp t \<le> maxP" using le add by simp
  ultimately have "\<exists>c. fst tb ! nat (total_amount M0 + rp t) = Num c \<and> c \<le> total_cost M0 + price_val t"
    using cv M0 t unfolding covers_def by blast
  then show ?thesis using add by (simp add: add.commute)
qed

lemma fill_step:
  assumes lk: "links_ok tiers maxP i tb" and cv: "covers tiers maxP i (fst tb)"
    and pos: "\<forall>t\<in>set tiers. 0 < rp t" and pr: "prices_ok tiers maxP" and i: "0 \<le> i" "i < maxP"
  defines "tb1 \<equiv> (if fst tb ! nat i = Infinity then tb else tierLoop maxP i tiers tb)"
  shows "links_ok tiers maxP (i + 1) tb1 \<and> covers tiers maxP (i + 1) (fst tb1)"
proof (cases "fst tb ! nat i = Infinity")
  case True
  then have tb1: "tb1 = tb" by (simp add: tb1_def)
  have "links_ok tiers maxP (i + 1) tb"
    using links_ok_mono [OF lk, of "i + 1"] by simp
  moreover have "covers tiers maxP (i + 1) (fst tb)"
    unfolding covers_def
  proof (intro allI impI)
    fix M t
    assume a: "set_mset M \<subseteq> set tiers \<and> t \<in> set tiers \<and> total_amount M < i + 1 \<and>
        total_amount M + rp t \<le> maxP"
    have "total_amount M \<noteq> i"
    proof
      assume "total_amount M = i"
      then have "\<exists>c. fst tb ! nat i = Num c \<and> c \<le> total_cost M"
        using covers_reach [OF lk cv pos, of M] a i by auto
      with True show False by simp
    qed
    then have "total_amount M < i" using a by simp
    then show "\<exists>c. fst tb ! nat (total_amount M + rp t) = Num c \<and> c \<le> total_cost M + price_val t"
      using cv a unfolding covers_def by blast
  qed
  ultimately show ?thesis using tb1 by simp
next
  case False
  obtain dp parent where tb: "tb = (dp, parent)" by (cases tb)
  have lk': "links_ok tiers maxP i (dp, parent)" using lk tb by simp
  from links_ok_entry [OF lk' i(1)] i(2) False tb
  obtain ci where dpi: "dp ! nat i = Num ci" and ci: "entry_ok maxP i ci" by auto
  obtain dp' parent' where run: "tierLoop maxP i tiers (dp, parent) = (dp', parent')"
    by (cases "tierLoop maxP i tiers (dp, parent)")
  have tb1: "tb1 = (dp', parent')" using False tb run by (simp add: tb1_def)
  have len: "length dp = nat (maxP + 1)" "length parent = nat (maxP + 1)"
    using lk tb by (simp_all add: links_ok_def)
  have len': "length dp' = nat (maxP + 1)" "length parent' = nat (maxP + 1)"
    using tierLoop_length [OF run] len by simp_all
  have low: "\<And>k. k \<le> nat i \<Longrightarrow> dp' ! k = dp ! k \<and> parent' ! k = parent ! k"
    using tierLoop_low [OF run pos i(1)] by blast
  have add: "num_add (dp ! nat i) (price t) = Num (ci + price_val t) \<and>
      entry_ok maxP j (ci + price_val t)" if "t \<in> set tiers" "i < j" for t j
  proof -
    from pr that(1) obtain p where p: "price t = Num p" "price_val t = p" "p \<in> \<int>" "0 < p"
      "p * of_int maxP \<le> 2 ^ 53"
      unfolding prices_ok_def by blast
    from exact_step [OF ci p(3,4,5) i(2) that(2) i(1)] show ?thesis using dpi p(1,2) by simp
  qed
  have lk1: "links_ok tiers maxP (i + 1) (dp', parent')"
    unfolding links_ok_def fst_conv snd_conv
  proof (intro conjI allI impI)
    show "length dp' = nat (maxP + 1)" "length parent' = nat (maxP + 1)" by (fact len')+
    show "dp' ! 0 = Num 0" "parent' ! 0 = None"
      using low [of 0] lk tb by (simp_all add: links_ok_def)
  next
    fix k :: int
    assume k: "0 < k \<and> k \<le> maxP"
    then have klen: "nat k < length dp" using len by simp
    from tierLoop_entry [OF run pos i(1) _ klen] len
    consider (old) "dp' ! nat k = dp ! nat k" "parent' ! nat k = parent ! nat k"
      | (new) t where "t \<in> set tiers" "int (nat k) = i + rp t" "parent' ! nat k = Some (t, i)"
          "dp' ! nat k = num_add (dp ! nat i) (price t)"
      by auto
    then show "(dp' ! nat k = Infinity \<and> parent' ! nat k = None) \<or>
         (\<exists>t prev c. parent' ! nat k = Some (t, prev) \<and> t \<in> set tiers \<and> 0 \<le> prev \<and> prev < i + 1 \<and>
            prev + rp t = k \<and> dp' ! nat prev = Num c \<and>
            dp' ! nat k = Num (c + price_val t) \<and> entry_ok maxP k (c + price_val t))"
    proof cases
      case old
      from lk tb k have "(dp ! nat k = Infinity \<and> parent ! nat k = None) \<or>
         (\<exists>t prev c. parent ! nat k = Some (t, prev) \<and> t \<in> set tiers \<and> 0 \<le> prev \<and> prev < i \<and>
            prev + rp t = k \<and> dp ! nat prev = Num c \<and>
            dp ! nat k = Num (c + price_val t) \<and> entry_ok maxP k (c + price_val t))"
        unfolding links_ok_def by simp
      then show ?thesis
      proof
        assume "dp ! nat k = Infinity \<and> parent ! nat k = None"
        with old show ?thesis by simp
      next
        assume "\<exists>t prev c. parent ! nat k = Some (t, prev) \<and> t \<in> set tiers \<and> 0 \<le> prev \<and> prev < i \<and>
            prev + rp t = k \<and> dp ! nat prev = Num c \<and>
            dp ! nat k = Num (c + price_val t) \<and> entry_ok maxP k (c + price_val t)"
        then obtain t prev c where h: "parent ! nat k = Some (t, prev)" "t \<in> set tiers" "0 \<le> prev"
          "prev < i" "prev + rp t = k" "dp ! nat prev = Num c" "dp ! nat k = Num (c + price_val t)"
          "entry_ok maxP k (c + price_val t)"
          by blast
        have "dp' ! nat prev = Num c" using low [of "nat prev"] h(3,4,6) by simp
        with h old have "parent' ! nat k = Some (t, prev) \<and> t \<in> set tiers \<and> 0 \<le> prev \<and> prev < i + 1 \<and>
            prev + rp t = k \<and> dp' ! nat prev = Num c \<and>
            dp' ! nat k = Num (c + price_val t) \<and> entry_ok maxP k (c + price_val t)"
          by simp
        then show ?thesis by blast
      qed
    next
      case new
      have "dp' ! nat i = Num ci" using low [of "nat i"] dpi by simp
      moreover have ik: "i + rp t = k" using new(2) k by simp
      moreover have "i < k" using ik pos new(1) by auto
      ultimately have "parent' ! nat k = Some (t, i) \<and> t \<in> set tiers \<and> 0 \<le> i \<and> i < i + 1 \<and>
            i + rp t = k \<and> dp' ! nat i = Num ci \<and>
            dp' ! nat k = Num (ci + price_val t) \<and> entry_ok maxP k (ci + price_val t)"
        using new add [of t k] i by simp
      then show ?thesis by blast
    qed
  qed
  moreover have "covers tiers maxP (i + 1) dp'"
    unfolding covers_def
  proof (intro allI impI)
    fix M t
    assume a: "set_mset M \<subseteq> set tiers \<and> t \<in> set tiers \<and> total_amount M < i + 1 \<and>
        total_amount M + rp t \<le> maxP"
    let ?j = "total_amount M + rp t"
    have nonneg: "0 \<le> total_amount M" using total_amount_nonneg [OF pos] a by blast
    have rpt: "0 < rp t" using pos a by blast
    have jlen: "nat ?j < length dp" using a len nonneg rpt by simp
    have j0: "0 \<le> ?j" using nonneg rpt by simp
    from links_ok_entry [OF lk1 j0] a
    have ok': "dp' ! nat ?j = Infinity \<or> (\<exists>v. dp' ! nat ?j = Num v)" by blast
    have "\<exists>c. dp ! nat (total_amount M) = Num c \<and> c \<le> total_cost M"
      using covers_reach [OF lk cv pos, of M] a i tb by auto
    then obtain cm where cm: "dp ! nat (total_amount M) = Num cm" "cm \<le> total_cost M" by blast
    show "\<exists>c. dp' ! nat ?j = Num c \<and> c \<le> total_cost M + price_val t"
    proof (cases "total_amount M = i")
      case True
      have "\<not> num_less (num_add (dp ! nat i) (price t)) (dp' ! nat (i + rp t))"
        using tierLoop_relax [OF run pos i(1), of t] a True jlen by simp
      moreover have "num_add (dp ! nat i) (price t) = Num (ci + price_val t)"
        using add [of t "i + rp t"] a rpt by simp
      ultimately have "\<not> num_less (Num (ci + price_val t)) (dp' ! nat ?j)" using True by simp
      with ok' obtain x where "dp' ! nat ?j = Num x" "x \<le> ci + price_val t"
        by (auto simp: not_less)
      moreover have "ci = cm" using cm dpi True by simp
      ultimately show ?thesis using cm(2) by auto
    next
      case False
      then have "total_amount M < i" using a by simp
      then obtain c where c: "dp ! nat ?j = Num c" "c \<le> total_cost M + price_val t"
        using cv a tb unfolding covers_def by (metis fst_conv)
      have "dp' ! nat ?j = dp ! nat ?j \<or> num_less (dp' ! nat ?j) (dp ! nat ?j)"
        using tierLoop_mono [OF run jlen] .
      with ok' c(1) obtain x where "dp' ! nat ?j = Num x" "x \<le> c"
        by auto
      with c show ?thesis by auto
    qed
  qed
  ultimately show ?thesis using tb1 by simp
qed

lemma fillLoop_inv:
  "links_ok tiers maxP i tb \<Longrightarrow> covers tiers maxP i (fst tb) \<Longrightarrow> \<forall>t\<in>set tiers. 0 < rp t \<Longrightarrow>
   prices_ok tiers maxP \<Longrightarrow> 0 \<le> i \<Longrightarrow> i \<le> maxP \<Longrightarrow>
   links_ok tiers maxP maxP (fillLoop maxP tiers i tb) \<and>
   covers tiers maxP maxP (fst (fillLoop maxP tiers i tb))"
proof (induction maxP tiers i tb rule: fillLoop.induct)
  case (1 maxP tiers i tb)
  show ?case
  proof (cases "i < maxP")
    case True
    let ?tb1 = "if fst tb ! nat i = Infinity then tb else tierLoop maxP i tiers tb"
    have step: "links_ok tiers maxP (i + 1) ?tb1 \<and> covers tiers maxP (i + 1) (fst ?tb1)"
      using fill_step [OF "1.prems"(1,2,3,4,5) True] by simp
    have "links_ok tiers maxP maxP (fillLoop maxP tiers (i + 1) ?tb1) \<and>
      covers tiers maxP maxP (fst (fillLoop maxP tiers (i + 1) ?tb1))"
      using "1.IH" [OF True] step "1.prems"(3,4,5) True by simp
    then show ?thesis using True by (subst (1 2) fillLoop.simps) simp
  next
    case False
    then have "i = maxP" using "1.prems"(6) by simp
    then show ?thesis using "1.prems"(1,2) by (subst (1 2) fillLoop.simps) simp
  qed
qed

lemma init_links_ok:
  assumes "0 \<le> maxP"
  shows "links_ok tiers maxP 0
    ((replicate (nat (maxP + 1)) Infinity)[0 := Num 0], replicate (nat (maxP + 1)) None)"
  unfolding links_ok_def fst_conv snd_conv
proof (intro conjI allI impI)
  fix k :: int
  assume k: "0 < k \<and> k \<le> maxP"
  then have "nat k \<noteq> 0" "nat k < nat (maxP + 1)" by simp_all
  then have "(replicate (nat (maxP + 1)) Infinity)[0 := Num 0] ! nat k = Infinity"
    "replicate (nat (maxP + 1)) (None :: parent_entry) ! nat k = None"
    by simp_all
  then show "((replicate (nat (maxP + 1)) Infinity)[0 := Num 0] ! nat k = Infinity \<and>
      replicate (nat (maxP + 1)) (None :: parent_entry) ! nat k = None) \<or>
      (\<exists>t prev c. replicate (nat (maxP + 1)) None ! nat k = Some (t, prev) \<and> t \<in> set tiers \<and>
         0 \<le> prev \<and> prev < 0 \<and> prev + rp t = k \<and>
         (replicate (nat (maxP + 1)) Infinity)[0 := Num 0] ! nat prev = Num c \<and>
         (replicate (nat (maxP + 1)) Infinity)[0 := Num 0] ! nat k = Num (c + price_val t) \<and>
         entry_ok maxP k (c + price_val t))"
    by blast
qed (use assms in simp_all)

lemma init_covers:
  assumes "\<forall>t\<in>set tiers. 0 < rp t"
  shows "covers tiers maxP 0 dp"
  unfolding covers_def
proof (intro allI impI)
  fix M t
  assume a: "set_mset M \<subseteq> set tiers \<and> t \<in> set tiers \<and> total_amount M < 0 \<and>
    total_amount M + rp t \<le> maxP"
  then have "0 \<le> total_amount M" using total_amount_nonneg [OF assms] by blast
  with a show "\<exists>c. dp ! nat (total_amount M + rp t) = Num c \<and> c \<le> total_cost M + price_val t"
    by simp
qed

subsection \<open>The finished table, for exact prices\<close>

lemma buildTable_inv:
  assumes "\<forall>t\<in>set tiers. 0 < rp t" and "prices_ok tiers maxP" and "0 \<le> maxP"
    and "buildTable maxP tiers = Inr tb"
  shows "links_ok tiers maxP maxP tb" and "covers tiers maxP maxP (fst tb)"
proof -
  obtain dp parent where tb: "tb = (dp, parent)" by (cases tb)
  have ok: "maxP + 1 \<le> 4294967295" using buildTable_facts(5) [OF assms(4) [unfolded tb] assms(3)] .
  have e: "fillLoop maxP tiers 0
      ((replicate (nat (maxP + 1)) Infinity)[0 := Num 0], replicate (nat (maxP + 1)) None) = tb"
    using buildTable_Inr [OF assms(3) ok, of tiers] assms(4) by simp
  from fillLoop_inv [OF init_links_ok [OF assms(3)] init_covers [OF assms(1)] assms(1,2) _ assms(3)]
  show "links_ok tiers maxP maxP tb" and "covers tiers maxP maxP (fst tb)"
    unfolding e by simp_all
qed

text \<open>Every multiset of amount at most \<open>maxP\<close> is covered by the final table.\<close>

lemma buildTable_complete:
  assumes pos: "\<forall>t\<in>set tiers. 0 < rp t" and "prices_ok tiers maxP" and "0 \<le> maxP"
    and "buildTable maxP tiers = Inr tb"
    and M: "set_mset M \<subseteq> set tiers" "total_amount M \<le> maxP"
  shows "\<exists>c. fst tb ! nat (total_amount M) = Num c \<and> c \<le> total_cost M"
  using covers_reach [OF buildTable_inv [OF assms(1,2,3,4)] pos M] by simp

subsection \<open>The scan\<close>

lemma num_less_trans1:
  "plain b \<Longrightarrow> plain c \<Longrightarrow> num_less a b \<Longrightarrow> \<not> num_less c b \<Longrightarrow> num_less a c"
  by (cases a; cases b; cases c) auto

lemma num_less_trans2:
  "plain a \<Longrightarrow> plain b \<Longrightarrow> \<not> num_less a b \<Longrightarrow> num_less c b \<Longrightarrow> \<not> num_less a c"
  by (cases a; cases b; cases c) auto

lemma not_num_less_Num:
  "plain b \<Longrightarrow> \<not> num_less (Num a) b \<Longrightarrow> \<exists>x. b = Num x \<and> x \<le> a"
  by (cases b) auto

text \<open>Any array: the selected index stays in the scanned range.\<close>

lemma scanLoop_range:
  "scanLoop dp maxP i st = (mp, b) \<Longrightarrow> target \<le> i \<Longrightarrow> target \<le> snd st \<Longrightarrow>
   snd st \<le> max target (i - 1) \<Longrightarrow> target \<le> b \<and> b \<le> max target (max (i - 1) maxP)"
proof (induction dp maxP i st rule: scanLoop.induct)
  case (1 dp maxP i minPrice bestRP)
  show ?case
  proof (cases "i \<le> maxP")
    case True
    let ?st1 = "if num_less (dp ! nat i) minPrice then (dp ! nat i, i) else (minPrice, bestRP)"
    have run: "scanLoop dp maxP (i + 1) ?st1 = (mp, b)"
      using "1.prems"(1) True by (subst (asm) scanLoop.simps) simp
    have a: "target \<le> i + 1" using "1.prems"(2) by simp
    have b: "target \<le> snd ?st1" using "1.prems"(2,3) by simp
    have c: "snd ?st1 \<le> max target (i + 1 - 1)" using "1.prems"(2,3,4) by auto
    have "target \<le> b \<and> b \<le> max target (max (i + 1 - 1) maxP)"
      using "1.IH" [OF True run a b c] .
    then show ?thesis using True by auto
  next
    case False
    then have "(mp, b) = (minPrice, bestRP)"
      using "1.prems"(1) by (subst (asm) scanLoop.simps) simp
    then show ?thesis using "1.prems"(3,4) by auto
  qed
qed

text \<open>Any array: a range of \<open>Infinity\<close> entries changes nothing.\<close>

lemma scanLoop_all_Infinity:
  "\<forall>k. i \<le> k \<and> k \<le> maxP \<longrightarrow> dp ! nat k = Infinity \<Longrightarrow> scanLoop dp maxP i st = st"
proof (induction dp maxP i st rule: scanLoop.induct)
  case (1 dp maxP i minPrice bestRP)
  show ?case
  proof (cases "i \<le> maxP")
    case True
    then have "dp ! nat i = Infinity" using "1.prems" by simp
    then have e: "(if num_less (dp ! nat i) minPrice then (dp ! nat i, i) else (minPrice, bestRP))
        = (minPrice, bestRP)"
      by simp
    have "scanLoop dp maxP (i + 1) (minPrice, bestRP) = (minPrice, bestRP)"
      using "1.IH" [OF True] "1.prems" unfolding e by simp
    then show ?thesis using True e by (subst scanLoop.simps) simp
  next
    case False
    then show ?thesis by (subst scanLoop.simps) simp
  qed
qed

lemma scan_step:
  assumes inv: "scan_inv dp target i (mp, b)" and i: "target \<le> i"
    and pl: "\<forall>k. target \<le> k \<and> k \<le> i \<longrightarrow> plain (dp ! nat k)"
  shows "scan_inv dp target (i + 1)
    (if num_less (dp ! nat i) mp then (dp ! nat i, i) else (mp, b))"
proof (cases "num_less (dp ! nat i) mp")
  case True
  have pmp: "plain mp" using inv by (simp add: scan_inv_def)
  have "scan_inv dp target (i + 1) (dp ! nat i, i)"
    unfolding scan_inv_def fst_conv snd_conv
  proof (intro conjI allI impI)
    show "target \<le> i" by (fact i)
    show "plain (dp ! nat i)" using pl i by simp
    show "dp ! nat i = Infinity \<and> i = target \<or>
      i < i + 1 \<and> dp ! nat i = dp ! nat i \<and> dp ! nat i \<noteq> Infinity"
      using num_less_not_Infinity [OF True] by simp
  next
    fix k assume k: "target \<le> k \<and> k < i + 1"
    show "\<not> num_less (dp ! nat k) (dp ! nat i)"
    proof (cases "k = i")
      case True
      then show ?thesis by (simp add: num_less_irrefl)
    next
      case False
      with k have "\<not> num_less (dp ! nat k) mp" using inv by (simp add: scan_inv_def)
      moreover have "plain (dp ! nat k)" using pl k by simp
      ultimately show ?thesis using True pmp num_less_trans2 by blast
    qed
  next
    fix k assume k: "target \<le> k \<and> k < i"
    then have "\<not> num_less (dp ! nat k) mp" using inv by (simp add: scan_inv_def)
    moreover have "plain (dp ! nat k)" using pl k by simp
    ultimately show "num_less (dp ! nat i) (dp ! nat k)" using True pmp num_less_trans1 by blast
  qed
  with True show ?thesis by simp
next
  case False
  have "scan_inv dp target (i + 1) (mp, b)"
    unfolding scan_inv_def fst_conv snd_conv
  proof (intro conjI allI impI)
    show "target \<le> b" using inv by (simp add: scan_inv_def)
    show "plain mp" using inv by (simp add: scan_inv_def)
    show "mp = Infinity \<and> b = target \<or> b < i + 1 \<and> mp = dp ! nat b \<and> mp \<noteq> Infinity"
      using inv by (auto simp: scan_inv_def)
  next
    fix k assume k: "target \<le> k \<and> k < i + 1"
    show "\<not> num_less (dp ! nat k) mp"
    proof (cases "k = i")
      case True
      then show ?thesis using False by simp
    next
      case False
      with k show ?thesis using inv by (simp add: scan_inv_def)
    qed
  next
    fix k assume "target \<le> k \<and> k < b"
    moreover have "\<forall>k. target \<le> k \<and> k < b \<longrightarrow> num_less mp (dp ! nat k)"
      using inv unfolding scan_inv_def fst_conv snd_conv by blast
    ultimately show "num_less mp (dp ! nat k)" by blast
  qed
  with False show ?thesis by simp
qed

lemma scanLoop_inv:
  "scan_inv dp target i st \<Longrightarrow> target \<le> i \<Longrightarrow> i \<le> maxP + 1 \<Longrightarrow>
   \<forall>k. target \<le> k \<and> k \<le> maxP \<longrightarrow> plain (dp ! nat k) \<Longrightarrow>
   scan_inv dp target (maxP + 1) (scanLoop dp maxP i st)"
proof (induction dp maxP i st rule: scanLoop.induct)
  case (1 dp maxP i minPrice bestRP)
  show ?case
  proof (cases "i \<le> maxP")
    case True
    let ?st1 = "if num_less (dp ! nat i) minPrice then (dp ! nat i, i) else (minPrice, bestRP)"
    have "\<forall>k. target \<le> k \<and> k \<le> i \<longrightarrow> plain (dp ! nat k)" using "1.prems"(4) True by auto
    then have "scan_inv dp target (i + 1) ?st1" using scan_step [OF "1.prems"(1,2)] by blast
    then have "scan_inv dp target (maxP + 1) (scanLoop dp maxP (i + 1) ?st1)"
      using "1.IH" [OF True] "1.prems"(2,4) True by simp
    then show ?thesis using True by (subst scanLoop.simps) simp
  next
    case False
    then have "i = maxP + 1" using "1.prems"(3) by simp
    then show ?thesis using "1.prems"(1) by (subst scanLoop.simps) simp
  qed
qed

lemma scanLoop_result:
  assumes "target \<le> maxP" and "scanLoop dp maxP target (Infinity, target) = (mp, b)"
    and "\<forall>k. target \<le> k \<and> k \<le> maxP \<longrightarrow> plain (dp ! nat k)"
  shows "target \<le> b" and "b \<le> maxP"
    and "mp = Infinity \<and> b = target \<or> mp = dp ! nat b \<and> mp \<noteq> Infinity"
    and "\<And>k. target \<le> k \<Longrightarrow> k \<le> maxP \<Longrightarrow> \<not> num_less (dp ! nat k) mp"
    and "\<And>k. target \<le> k \<Longrightarrow> k < b \<Longrightarrow> num_less mp (dp ! nat k)"
    and "plain mp"
proof -
  have "scan_inv dp target target (Infinity, target)"
    by (auto simp: scan_inv_def)
  then have inv: "scan_inv dp target (maxP + 1) (mp, b)"
    using scanLoop_inv [of dp target target "(Infinity, target)" maxP] assms by simp
  show "target \<le> b" using inv by (simp add: scan_inv_def)
  show "b \<le> maxP" using inv assms(1) by (auto simp: scan_inv_def)
  show "mp = Infinity \<and> b = target \<or> mp = dp ! nat b \<and> mp \<noteq> Infinity"
    using inv by (auto simp: scan_inv_def)
  show "\<And>k. target \<le> k \<Longrightarrow> k \<le> maxP \<Longrightarrow> \<not> num_less (dp ! nat k) mp"
    using inv unfolding scan_inv_def fst_conv snd_conv by auto
  show "\<And>k. target \<le> k \<Longrightarrow> k < b \<Longrightarrow> num_less mp (dp ! nat k)"
    using inv unfolding scan_inv_def fst_conv snd_conv by blast
  show "plain mp" using inv by (simp add: scan_inv_def)
qed

subsection \<open>The walk over the back pointers\<close>

lemma parent_at_in_range:
  "0 \<le> k \<Longrightarrow> nat k < length parent \<Longrightarrow> parent_at parent k = parent ! nat k"
  by (simp add: parent_at_def)

text \<open>
  Positive amounts, any prices: the walk ends, the body runs once for each package it
  collects, and every run strictly lowers the current amount.
\<close>

lemma walk_run:
  assumes ls: "links_struct tiers (dp, parent)"
  shows "0 \<le> k \<Longrightarrow> nat k < length parent \<Longrightarrow>
    \<exists>cur pk. walk parent (k, acc) = Some (cur, acc @ pk) \<and> set pk \<subseteq> set tiers \<and>
      (walk_body parent ^^ length pk) (k, acc) = (cur, acc @ pk) \<and>
      \<not> walk_cond parent (cur, acc @ pk) \<and>
      (\<forall>m < length pk. walk_cond parent ((walk_body parent ^^ m) (k, acc)) \<and>
          fst ((walk_body parent ^^ Suc m) (k, acc)) < fst ((walk_body parent ^^ m) (k, acc)))"
proof (induction "nat k" arbitrary: k acc rule: less_induct)
  case less
  have len: "length parent = length dp" using ls by (simp add: links_struct_def)
  show ?case
  proof (cases "walk_cond parent (k, acc)")
    case False
    then have "walk parent (k, acc) = Some (k, acc)" by (subst walk.simps) simp
    then have "walk parent (k, acc) = Some (k, acc @ []) \<and> set [] \<subseteq> set tiers \<and>
      (walk_body parent ^^ length []) (k, acc) = (k, acc @ []) \<and>
      \<not> walk_cond parent (k, acc @ []) \<and>
      (\<forall>m < length ([] :: RPPackage list). walk_cond parent ((walk_body parent ^^ m) (k, acc)) \<and>
          fst ((walk_body parent ^^ Suc m) (k, acc)) < fst ((walk_body parent ^^ m) (k, acc)))"
      using False by simp
    then show ?thesis by blast
  next
    case True
    then have "parent_at parent k \<noteq> None" by (simp add: walk_cond_def)
    then obtain t prev where pa: "parent_at parent k = Some (t, prev)" by auto
    then have p: "parent ! nat k = Some (t, prev)"
      using less.prems by (simp add: parent_at_def)
    have "t \<in> set tiers \<and> 0 \<le> prev \<and> prev < int (nat k) \<and> prev + rp t = int (nat k)"
      using ls p less.prems(2) len unfolding links_struct_def fst_conv snd_conv by auto
    then have h: "t \<in> set tiers" "0 \<le> prev" "prev < k" using less.prems(1) by simp_all
    have body: "walk_body parent (k, acc) = (prev, acc @ [t])" using pa by (simp add: walk_body_def)
    have "nat prev < nat k" using h(2,3) by simp
    moreover have "nat prev < length parent" using h(2,3) less.prems by simp
    ultimately obtain cur pk where pk: "walk parent (prev, acc @ [t]) = Some (cur, (acc @ [t]) @ pk)"
      "set pk \<subseteq> set tiers"
      "(walk_body parent ^^ length pk) (prev, acc @ [t]) = (cur, (acc @ [t]) @ pk)"
      "\<not> walk_cond parent (cur, (acc @ [t]) @ pk)"
      "\<forall>m < length pk. walk_cond parent ((walk_body parent ^^ m) (prev, acc @ [t])) \<and>
          fst ((walk_body parent ^^ Suc m) (prev, acc @ [t])) < fst ((walk_body parent ^^ m) (prev, acc @ [t]))"
      using less.hyps [of prev "acc @ [t]"] h(2) by blast
    have shift: "\<And>m. (walk_body parent ^^ Suc m) (k, acc) = (walk_body parent ^^ m) (prev, acc @ [t])"
      using body by (simp only: funpow_Suc_right o_apply)
    have w: "walk parent (k, acc) = Some (cur, acc @ (t # pk))"
      using True body pk(1) by (subst walk.simps) simp
    have iter: "(walk_body parent ^^ length (t # pk)) (k, acc) = (cur, acc @ (t # pk))"
      using shift [of "length pk"] pk(3) by simp
    have steps: "\<forall>m < length (t # pk). walk_cond parent ((walk_body parent ^^ m) (k, acc)) \<and>
          fst ((walk_body parent ^^ Suc m) (k, acc)) < fst ((walk_body parent ^^ m) (k, acc))"
    proof (intro allI impI)
      fix m assume m: "m < length (t # pk)"
      show "walk_cond parent ((walk_body parent ^^ m) (k, acc)) \<and>
          fst ((walk_body parent ^^ Suc m) (k, acc)) < fst ((walk_body parent ^^ m) (k, acc))"
      proof (cases m)
        case 0
        then show ?thesis using True body h(3) by simp
      next
        case (Suc m')
        then have "m' < length pk" using m by simp
        with pk(5) have "walk_cond parent ((walk_body parent ^^ m') (prev, acc @ [t])) \<and>
          fst ((walk_body parent ^^ Suc m') (prev, acc @ [t])) < fst ((walk_body parent ^^ m') (prev, acc @ [t]))"
          by blast
        then show ?thesis unfolding Suc shift [symmetric] .
      qed
    qed
    have "walk parent (k, acc) = Some (cur, acc @ (t # pk)) \<and> set (t # pk) \<subseteq> set tiers \<and>
      (walk_body parent ^^ length (t # pk)) (k, acc) = (cur, acc @ (t # pk)) \<and>
      \<not> walk_cond parent (cur, acc @ (t # pk)) \<and>
      (\<forall>m < length (t # pk). walk_cond parent ((walk_body parent ^^ m) (k, acc)) \<and>
          fst ((walk_body parent ^^ Suc m) (k, acc)) < fst ((walk_body parent ^^ m) (k, acc)))"
      using w pk(2,4) h(1) iter steps by simp
    then show ?thesis by blast
  qed
qed

text \<open>
  Exact prices: the walk from a finite entry ends at amount \<open>0\<close>, and the packages it
  collects have the amount of the entry's index and the entry's cost.
\<close>

lemma links_ok_link:
  assumes lk: "links_ok tiers maxP maxP (dp, parent)" and pos: "\<forall>t\<in>set tiers. 0 < rp t"
    and k: "0 < k" "k \<le> maxP" and c: "dp ! nat k = Num c"
  shows "\<exists>t prev c'. parent ! nat k = Some (t, prev) \<and> t \<in> set tiers \<and> 0 \<le> prev \<and> prev < k \<and>
    prev + rp t = k \<and> dp ! nat prev = Num c' \<and> c = c' + price_val t"
proof -
  have "(dp ! nat k = Infinity \<and> parent ! nat k = None) \<or>
     (\<exists>t prev c. parent ! nat k = Some (t, prev) \<and> t \<in> set tiers \<and> 0 \<le> prev \<and> prev < maxP \<and>
        prev + rp t = k \<and> dp ! nat prev = Num c \<and>
        dp ! nat k = Num (c + price_val t) \<and> entry_ok maxP k (c + price_val t))"
    using lk k unfolding links_ok_def fst_conv snd_conv by blast
  with c obtain t prev c' where h: "parent ! nat k = Some (t, prev)" "t \<in> set tiers" "0 \<le> prev"
    "prev + rp t = k" "dp ! nat prev = Num c'" "c = c' + price_val t"
    by auto
  moreover have "0 < rp t" using pos h(2) by simp
  ultimately have "parent ! nat k = Some (t, prev) \<and> t \<in> set tiers \<and> 0 \<le> prev \<and> prev < k \<and>
    prev + rp t = k \<and> dp ! nat prev = Num c' \<and> c = c' + price_val t"
    by simp
  then show ?thesis by blast
qed

lemma walk_links:
  assumes lk: "links_ok tiers maxP maxP (dp, parent)" and pos: "\<forall>t\<in>set tiers. 0 < rp t"
  shows "0 \<le> k \<Longrightarrow> k \<le> maxP \<Longrightarrow> dp ! nat k = Num c \<Longrightarrow>
    \<exists>pk. walk parent (k, acc) = Some (0, acc @ pk) \<and> set pk \<subseteq> set tiers \<and>
      total_amount (mset pk) = k \<and> total_cost (mset pk) = c"
proof (induction "nat k" arbitrary: k c acc rule: less_induct)
  case less
  have len: "length parent = nat (maxP + 1)" using lk by (simp add: links_ok_def)
  show ?case
  proof (cases "k = 0")
    case True
    have "\<not> walk_cond parent (0, acc)" by (simp add: walk_cond_def)
    then have "walk parent (0, acc) = Some (0, acc)" by (subst walk.simps) simp
    moreover have "c = 0" using lk less.prems(3) True by (simp add: links_ok_def)
    ultimately have "walk parent (k, acc) = Some (0, acc @ []) \<and> set [] \<subseteq> set tiers \<and>
      total_amount (mset []) = k \<and> total_cost (mset []) = c"
      using True by simp
    then show ?thesis by blast
  next
    case False
    then have kpos: "0 < k" using less.prems(1) by simp
    from links_ok_link [OF lk pos kpos less.prems(2,3)]
    obtain t prev c' where h: "parent ! nat k = Some (t, prev)" "t \<in> set tiers" "0 \<le> prev"
      "prev < k" "prev + rp t = k" "dp ! nat prev = Num c'" "c = c' + price_val t"
      by blast
    have pa: "parent_at parent k = Some (t, prev)"
      using parent_at_in_range [of k parent] less.prems(1,2) len h(1) by simp
    have cond: "walk_cond parent (k, acc)" using kpos pa by (simp add: walk_cond_def)
    have body: "walk_body parent (k, acc) = (prev, acc @ [t])" using pa by (simp add: walk_body_def)
    have "nat prev < nat k" using h(3,4) by simp
    from less.hyps [OF this h(3) _ h(6), of "acc @ [t]"] h(4) less.prems(2)
    obtain pk where pk: "walk parent (prev, acc @ [t]) = Some (0, (acc @ [t]) @ pk)"
      "set pk \<subseteq> set tiers" "total_amount (mset pk) = prev" "total_cost (mset pk) = c'"
      by auto
    have w: "walk parent (k, acc) = Some (0, acc @ (t # pk))"
      using cond body pk(1) by (subst walk.simps) simp
    have "walk parent (k, acc) = Some (0, acc @ (t # pk)) \<and> set (t # pk) \<subseteq> set tiers \<and>
      total_amount (mset (t # pk)) = k \<and> total_cost (mset (t # pk)) = c"
      using w pk(2,3,4) h(2,5,7) by simp
    then show ?thesis by blast
  qed
qed

subsection \<open>The solver\<close>

lemma findOptimalPlan_unfold:
  assumes "0 < targetRP"
    and "buildTable (targetRP + maxRP_of tiers) tiers = Inr (dp, parent)"
    and "scanLoop dp (targetRP + maxRP_of tiers) targetRP (Infinity, targetRP) = (minPrice, bestRP)"
  shows "findOptimalPlan targetRP tiers =
    (case walk parent (bestRP, []) of
       None \<Rightarrow> None
     | Some (cur, resultPackages) \<Rightarrow>
         Some (Inr \<lparr>packages = resultPackages, totalRP = bestRP, totalPrice = minPrice\<rparr>))"
  using assms by (simp add: findOptimalPlan_def Let_def)

lemma findOptimalPlan_RangeError:
  assumes "0 < targetRP" and "\<not> allocatable targetRP tiers"
  shows "findOptimalPlan targetRP tiers = Some (Inl RangeError)"
proof -
  have "4294967295 < targetRP + maxRP_of tiers + 1" using assms(2) by (simp add: allocatable_def)
  from buildTable_RangeError [OF this] assms(1) show ?thesis
    by (simp add: findOptimalPlan_def Let_def)
qed

lemma allocatable_table:
  assumes "0 < targetRP" and "allocatable targetRP tiers"
  shows "\<exists>dp parent. buildTable (targetRP + maxRP_of tiers) tiers = Inr (dp, parent)"
proof -
  have "0 \<le> targetRP + maxRP_of tiers" using assms(1) maxRP_of_nonneg [of tiers] by simp
  moreover have "targetRP + maxRP_of tiers + 1 \<le> 4294967295"
    using assms(2) by (simp add: allocatable_def)
  ultimately show ?thesis
    using buildTable_Inr [of "targetRP + maxRP_of tiers" tiers]
    by (cases "fillLoop (targetRP + maxRP_of tiers) tiers 0
      ((replicate (nat (targetRP + maxRP_of tiers + 1)) Infinity)[0 := Num 0],
       replicate (nat (targetRP + maxRP_of tiers + 1)) None)") auto
qed

text \<open>Any catalogue: the selected amount lies in the scanned range.\<close>

lemma solver_range:
  assumes target: "0 < targetRP" and res: "findOptimalPlan targetRP tiers = Some (Inr p)"
  shows "targetRP \<le> totalRP p \<and> totalRP p \<le> targetRP + maxRP_of tiers"
proof -
  define maxP where "maxP = targetRP + maxRP_of tiers"
  have "\<exists>dp parent. buildTable maxP tiers = Inr (dp, parent)"
  proof (cases "buildTable maxP tiers")
    case (Inl e)
    then have "findOptimalPlan targetRP tiers = Some (Inl e)"
      using target by (simp add: findOptimalPlan_def Let_def maxP_def)
    with res show ?thesis by simp
  next
    case (Inr tb)
    then show ?thesis by (cases tb) simp
  qed
  then obtain dp parent where tb: "buildTable maxP tiers = Inr (dp, parent)" by blast
  obtain mp b where sc: "scanLoop dp maxP targetRP (Infinity, targetRP) = (mp, b)"
    by (cases "scanLoop dp maxP targetRP (Infinity, targetRP)")
  have tmax: "targetRP \<le> maxP" using maxRP_of_nonneg [of tiers] by (simp add: maxP_def)
  have rng: "targetRP \<le> b \<and> b \<le> max targetRP (max (targetRP - 1) maxP)"
    using scanLoop_range [OF sc, of targetRP] by simp
  note trans [OF findOptimalPlan_unfold [OF target tb [unfolded maxP_def] sc [unfolded maxP_def],
      symmetric] res]
  then have "totalRP p = b"
    by (cases "walk parent (b, [])") auto
  then show ?thesis using rng tmax by (simp add: maxP_def)
qed

text \<open>
  Positive amounts, any prices: when the arrays can be allocated the solver returns, and
  the walk is as \<open>walk_run\<close> describes it.
\<close>

lemma solver_run:
  assumes pos: "\<forall>t\<in>set tiers. 0 < rp t" and target: "0 < targetRP"
    and alloc: "allocatable targetRP tiers"
  shows "\<exists>pk b mp cur. findOptimalPlan targetRP tiers =
      Some (Inr \<lparr>packages = pk, totalRP = b, totalPrice = mp\<rparr>) \<and>
    targetRP \<le> b \<and> b \<le> targetRP + maxRP_of tiers \<and> set pk \<subseteq> set tiers \<and>
    walk (parent_table targetRP tiers) (b, []) = Some (cur, pk) \<and>
    walk_state (parent_table targetRP tiers) b (length pk) = (cur, pk) \<and>
    \<not> walk_cond (parent_table targetRP tiers) (cur, pk) \<and>
    (\<forall>m < length pk.
       walk_cond (parent_table targetRP tiers) (walk_state (parent_table targetRP tiers) b m) \<and>
       fst (walk_state (parent_table targetRP tiers) b (Suc m))
         < fst (walk_state (parent_table targetRP tiers) b m)) \<and>
    (\<forall>k t prev. 0 \<le> k \<and> k \<le> targetRP + maxRP_of tiers \<and>
       parent_table targetRP tiers ! nat k = Some (t, prev) \<longrightarrow> 0 \<le> prev \<and> prev < k)"
proof -
  define maxP where "maxP = targetRP + maxRP_of tiers"
  from allocatable_table [OF target alloc]
  obtain dp parent where tb: "buildTable maxP tiers = Inr (dp, parent)" unfolding maxP_def by blast
  obtain mp b where sc: "scanLoop dp maxP targetRP (Infinity, targetRP) = (mp, b)"
    by (cases "scanLoop dp maxP targetRP (Infinity, targetRP)")
  have tmax: "targetRP \<le> maxP" using maxRP_of_nonneg [of tiers] by (simp add: maxP_def)
  then have maxP0: "0 \<le> maxP" using target by simp
  have len: "length parent = nat (maxP + 1)" using buildTable_facts(2) [OF tb maxP0] .
  have lend: "length dp = nat (maxP + 1)" using buildTable_facts(1) [OF tb maxP0] .
  have ls: "links_struct tiers (dp, parent)" using buildTable_facts(4) [OF tb maxP0 pos] .
  have rng: "targetRP \<le> b" "b \<le> maxP"
    using scanLoop_range [OF sc, of targetRP] tmax by simp_all
  have pt: "parent_table targetRP tiers = parent" using tb by (simp add: parent_table_def maxP_def)
  have b0: "0 \<le> b" using rng(1) target by simp
  have bl: "nat b < length parent" using rng(2) len b0 by simp
  from walk_run [OF ls b0 bl, of "[]"]
  obtain cur pk where pk: "walk parent (b, []) = Some (cur, pk)" "set pk \<subseteq> set tiers"
    "(walk_body parent ^^ length pk) (b, []) = (cur, pk)"
    "\<not> walk_cond parent (cur, pk)"
    "\<forall>m < length pk. walk_cond parent ((walk_body parent ^^ m) (b, [])) \<and>
          fst ((walk_body parent ^^ Suc m) (b, [])) < fst ((walk_body parent ^^ m) (b, []))"
    by auto
  have res: "findOptimalPlan targetRP tiers = Some (Inr \<lparr>packages = pk, totalRP = b, totalPrice = mp\<rparr>)"
    using findOptimalPlan_unfold [OF target tb [unfolded maxP_def] sc [unfolded maxP_def]] pk(1)
    by simp
  have dec: "\<forall>k t prev. 0 \<le> k \<and> k \<le> maxP \<and> parent ! nat k = Some (t, prev) \<longrightarrow>
      0 \<le> prev \<and> prev < k"
  proof (intro allI impI)
    fix k t prev
    assume a: "0 \<le> k \<and> k \<le> maxP \<and> parent ! nat k = Some (t, prev)"
    then have "nat k < length dp" using lend by simp
    with a ls have "0 \<le> prev \<and> prev < int (nat k)"
      unfolding links_struct_def fst_conv snd_conv by blast
    with a show "0 \<le> prev \<and> prev < k" by simp
  qed
  show ?thesis
    unfolding pt walk_state_def
    using res rng pk dec unfolding maxP_def by blast
qed

text \<open>Any catalogue: nothing reachable in the scanned range gives the plan without packages.\<close>

lemma solver_unreachable:
  assumes target: "0 < targetRP"
    and tb: "buildTable (targetRP + maxRP_of tiers) tiers = Inr (dp, parent)"
    and unreach: "\<forall>k. targetRP \<le> k \<and> k \<le> targetRP + maxRP_of tiers \<longrightarrow> dp ! nat k = Infinity"
  shows "findOptimalPlan targetRP tiers =
    Some (Inr \<lparr>packages = [], totalRP = targetRP, totalPrice = Infinity\<rparr>)"
proof -
  define maxP where "maxP = targetRP + maxRP_of tiers"
  have tmax: "targetRP \<le> maxP" using maxRP_of_nonneg [of tiers] by (simp add: maxP_def)
  then have maxP0: "0 \<le> maxP" using target by simp
  have sc: "scanLoop dp maxP targetRP (Infinity, targetRP) = (Infinity, targetRP)"
    using scanLoop_all_Infinity [of targetRP maxP dp] unreach unfolding maxP_def by simp
  have len: "length dp = nat (maxP + 1)" "length parent = nat (maxP + 1)"
    using buildTable_facts(1,2) [OF tb [folded maxP_def] maxP0] by simp_all
  have "linked_finite (dp, parent)" using buildTable_facts(3) [OF tb [folded maxP_def] maxP0] .
  moreover have "nat targetRP < length dp" using len tmax target by simp
  moreover have "dp ! nat targetRP = Infinity" using unreach tmax by (simp add: maxP_def)
  ultimately have "parent ! nat targetRP = None"
    unfolding linked_finite_def fst_conv snd_conv by (cases "parent ! nat targetRP") auto
  then have "parent_at parent targetRP = None" by (simp add: parent_at_def)
  then have "\<not> walk_cond parent (targetRP, [])" by (simp add: walk_cond_def)
  then have "walk parent (targetRP, []) = Some (targetRP, [])" by (subst walk.simps) simp
  then show ?thesis
    using findOptimalPlan_unfold [OF target tb sc [unfolded maxP_def]] by simp
qed

lemma fillLoop_Nil: "tiers = [] \<Longrightarrow> fillLoop maxP tiers i tb = tb"
proof (induction maxP tiers i tb rule: fillLoop.induct)
  case (1 maxP tiers i tb)
  show ?case
  proof (cases "i < maxP")
    case True
    have e: "tierLoop maxP i tiers tb = tb" unfolding "1.prems" by simp
    have "fillLoop maxP tiers (i + 1) tb = tb"
      using "1.IH" [OF True "1.prems"] unfolding e if_cancel .
    then show ?thesis using True "1.prems" by (subst fillLoop.simps) simp
  next
    case False
    then show ?thesis by (subst fillLoop.simps) simp
  qed
qed

lemma solver_Nil:
  assumes "0 < targetRP" and "targetRP \<le> 4294967294"
  shows "findOptimalPlan targetRP [] =
    Some (Inr \<lparr>packages = [], totalRP = targetRP, totalPrice = Infinity\<rparr>)"
proof -
  have m: "maxRP_of [] = 0" by (simp add: maxRP_of_def)
  let ?dp = "(replicate (nat (targetRP + 1)) Infinity)[0 := Num 0]"
  have tb: "buildTable (targetRP + maxRP_of []) [] =
      Inr (?dp, replicate (nat (targetRP + 1)) None)"
    using buildTable_Inr [of targetRP "[]"] assms by (simp add: m fillLoop_Nil [OF refl])
  show ?thesis
  proof (rule solver_unreachable [OF assms(1) tb], intro allI impI)
    fix k assume "targetRP \<le> k \<and> k \<le> targetRP + maxRP_of []"
    then have "k = targetRP" using m by simp
    moreover have "nat targetRP \<noteq> 0" "nat targetRP < nat (targetRP + 1)" using assms by simp_all
    ultimately show "?dp ! nat k = Infinity" by simp
  qed
qed

subsection \<open>The solver on a catalogue with exact prices\<close>

lemma total_amount_replicate: "total_amount (replicate_mset n t) = int n * rp t"
  by (induction n) (simp_all add: algebra_simps)

lemma total_amount_mset: "total_amount (mset xs) = sum_list (map rp xs)"
  by (induction xs) simp_all

lemma total_cost_mset: "total_cost (mset xs) = sum_list (map price_val xs)"
  by (induction xs) simp_all

lemma feasible_exists:
  assumes "t \<in> set tiers" and "0 < rp t" and "0 \<le> target"
  shows "\<exists>M. set_mset M \<subseteq> set tiers \<and> target \<le> total_amount M"
proof -
  have "target * 1 \<le> target * rp t" using assms(2,3) by (intro mult_left_mono) simp_all
  then have "target \<le> total_amount (replicate_mset (nat target) t)"
    using assms(3) by (simp add: total_amount_replicate)
  moreover have "set_mset (replicate_mset (nat target) t) \<subseteq> set tiers"
    using assms(1) by (auto simp: set_mset_replicate_mset_subset split: if_splits)
  ultimately show ?thesis by blast
qed

text \<open>
  A multiset that reaches the target contains one that reaches it within the ceiling, at
  no higher price: the reason why the search may stop at \<open>target + maxRP\<close>.
\<close>

lemma shrink_to_ceiling:
  assumes pos: "\<forall>t\<in>set tiers. 0 < rp t \<and> 0 \<le> price_val t" and target: "0 \<le> target"
  shows "set_mset M \<subseteq> set tiers \<Longrightarrow> target \<le> total_amount M \<Longrightarrow>
    \<exists>M'. set_mset M' \<subseteq> set tiers \<and> target \<le> total_amount M' \<and>
      total_amount M' \<le> target + maxRP_of tiers \<and> total_cost M' \<le> total_cost M"
proof (induction M)
  case empty
  then have "target = 0" using target by simp
  then have "set_mset {#} \<subseteq> set tiers \<and> target \<le> total_amount {#} \<and>
      total_amount {#} \<le> target + maxRP_of tiers \<and> total_cost {#} \<le> total_cost {#}"
    using maxRP_of_nonneg [of tiers] by simp
  then show ?case by blast
next
  case (add t M)
  have t: "t \<in> set tiers" and M: "set_mset M \<subseteq> set tiers" using add.prems(1) by auto
  show ?case
  proof (cases "target \<le> total_amount M")
    case True
    from add.IH [OF M True] obtain M' where "set_mset M' \<subseteq> set tiers \<and> target \<le> total_amount M' \<and>
      total_amount M' \<le> target + maxRP_of tiers \<and> total_cost M' \<le> total_cost M"
      by blast
    moreover have "0 \<le> price_val t" using pos t by simp
    ultimately have "set_mset M' \<subseteq> set tiers \<and> target \<le> total_amount M' \<and>
      total_amount M' \<le> target + maxRP_of tiers \<and> total_cost M' \<le> total_cost (add_mset t M)"
      by simp
    then show ?thesis by blast
  next
    case False
    have "rp t \<le> maxRP_of tiers" using maxRP_of_ge [OF t] .
    with False have "total_amount (add_mset t M) \<le> target + maxRP_of tiers" by simp
    with add.prems show ?thesis by blast
  qed
qed

lemma solver_spec:
  assumes rppos: "\<forall>t\<in>set tiers. 0 < rp t" and ne: "tiers \<noteq> []"
    and exact: "exact_prices targetRP tiers" and alloc: "allocatable targetRP tiers"
    and target: "0 < targetRP"
  shows "\<exists>pk b c. findOptimalPlan targetRP tiers =
      Some (Inr \<lparr>packages = pk, totalRP = b, totalPrice = Num c\<rparr>) \<and>
    set pk \<subseteq> set tiers \<and> total_amount (mset pk) = b \<and> total_cost (mset pk) = c \<and>
    targetRP \<le> b \<and> b \<le> targetRP + maxRP_of tiers \<and>
    (\<forall>M. set_mset M \<subseteq> set tiers \<and> targetRP \<le> total_amount M \<longrightarrow>
       c \<le> total_cost M \<and> (total_cost M = c \<longrightarrow> b \<le> total_amount M)) \<and>
    c \<le> 2 ^ 53"
proof -
  define maxP where "maxP = targetRP + maxRP_of tiers"
  from allocatable_table [OF target alloc]
  obtain dp parent where tb: "buildTable maxP tiers = Inr (dp, parent)" unfolding maxP_def by blast
  obtain mp b where sc: "scanLoop dp maxP targetRP (Infinity, targetRP) = (mp, b)"
    by (cases "scanLoop dp maxP targetRP (Infinity, targetRP)")
  have pok: "prices_ok tiers maxP"
    unfolding prices_ok_def maxP_def using exact_prices_D [OF exact] by blast
  have pos': "\<forall>t\<in>set tiers. 0 < rp t \<and> 0 \<le> price_val t"
  proof
    fix t assume t: "t \<in> set tiers"
    from exact_prices_D [OF exact t] obtain p where "price_val t = p" "0 < p" by blast
    then show "0 < rp t \<and> 0 \<le> price_val t" using rppos t by simp
  qed
  have tmax: "targetRP \<le> maxP" using maxRP_of_nonneg [of tiers] by (simp add: maxP_def)
  then have maxP0: "0 \<le> maxP" using target by simp
  have lk: "links_ok tiers maxP maxP (dp, parent)"
    using buildTable_inv(1) [OF rppos pok maxP0 tb] .
  have complete: "\<And>M. set_mset M \<subseteq> set tiers \<Longrightarrow> total_amount M \<le> maxP \<Longrightarrow>
      \<exists>c. dp ! nat (total_amount M) = Num c \<and> c \<le> total_cost M"
    using buildTable_complete [OF rppos pok maxP0 tb] by simp
  have pl: "\<forall>k. targetRP \<le> k \<and> k \<le> maxP \<longrightarrow> plain (dp ! nat k)"
  proof (intro allI impI)
    fix k assume k: "targetRP \<le> k \<and> k \<le> maxP"
    then have "0 \<le> k" "k \<le> maxP" using target by simp_all
    from links_ok_entry [OF lk this] show "plain (dp ! nat k)" by auto
  qed
  note scan = scanLoop_result [OF tmax sc pl]
  obtain t0 where t0: "t0 \<in> set tiers" using ne by (cases tiers) auto
  obtain M0 where M0: "set_mset M0 \<subseteq> set tiers" "targetRP \<le> total_amount M0"
    using feasible_exists [OF t0, of targetRP] rppos t0 target by auto
  obtain M1 where M1: "set_mset M1 \<subseteq> set tiers" "targetRP \<le> total_amount M1"
    "total_amount M1 \<le> maxP"
    using shrink_to_ceiling [OF pos' _ M0] target unfolding maxP_def by auto
  obtain c1 where c1: "dp ! nat (total_amount M1) = Num c1" using complete [OF M1(1,3)] by blast
  have nl: "\<not> num_less (Num c1) mp" using scan(4) [OF M1(2,3)] c1 by simp
  have "mp \<noteq> Infinity" using nl by auto
  moreover have "mp \<noteq> NaN" "mp \<noteq> NegInfinity" using scan(6) by auto
  ultimately obtain c where mp: "mp = Num c" by (cases mp) simp_all
  then have dpb: "dp ! nat b = Num c" using scan(3) by auto
  have b0: "0 \<le> b" using scan(1) target by simp
  from walk_links [OF lk rppos b0 scan(2) dpb, of "[]"]
  obtain pk where pk: "walk parent (b, []) = Some (0, pk)" "set pk \<subseteq> set tiers"
    "total_amount (mset pk) = b" "total_cost (mset pk) = c"
    by auto
  have res: "findOptimalPlan targetRP tiers =
      Some (Inr \<lparr>packages = pk, totalRP = b, totalPrice = Num c\<rparr>)"
    using findOptimalPlan_unfold [OF target tb [unfolded maxP_def] sc [unfolded maxP_def]] pk(1) mp
    by simp
  have opt: "\<forall>M. set_mset M \<subseteq> set tiers \<and> targetRP \<le> total_amount M \<longrightarrow>
       c \<le> total_cost M \<and> (total_cost M = c \<longrightarrow> b \<le> total_amount M)"
  proof (intro allI impI)
    fix M assume a: "set_mset M \<subseteq> set tiers \<and> targetRP \<le> total_amount M"
    obtain M' where M': "set_mset M' \<subseteq> set tiers" "targetRP \<le> total_amount M'"
      "total_amount M' \<le> maxP" "total_cost M' \<le> total_cost M"
      using shrink_to_ceiling [OF pos' _ conjunct1 [OF a] conjunct2 [OF a]] target
      unfolding maxP_def by auto
    obtain c' where c': "dp ! nat (total_amount M') = Num c'" "c' \<le> total_cost M'"
      using complete [OF M'(1,3)] by blast
    have "\<not> num_less (Num c') (Num c)" using scan(4) [OF M'(2,3)] c'(1) mp by simp
    then have le: "c \<le> total_cost M" using c'(2) M'(4) by simp
    have "b \<le> total_amount M" if eq: "total_cost M = c"
    proof (rule ccontr)
      assume "\<not> b \<le> total_amount M"
      then have lt: "total_amount M < b" by simp
      then have "total_amount M \<le> maxP" using scan(2) by simp
      then obtain cm where cm: "dp ! nat (total_amount M) = Num cm" "cm \<le> total_cost M"
        using complete a by blast
      have "num_less mp (dp ! nat (total_amount M))" using scan(5) a lt by blast
      then show False using cm mp eq by simp
    qed
    with le show "c \<le> total_cost M \<and> (total_cost M = c \<longrightarrow> b \<le> total_amount M)" by blast
  qed
  have small: "c \<le> 2 ^ 53"
  proof -
    from links_ok_entry [OF lk b0 scan(2)] dpb have "entry_ok maxP b c" by auto
    then have "c * of_int maxP \<le> of_int b * 2 ^ 53" by (simp add: entry_ok_def)
    also have "\<dots> \<le> of_int maxP * 2 ^ 53" using scan(2) by simp
    finally have "c * rat_of_int maxP \<le> 2 ^ 53 * of_int maxP" by (simp add: mult.commute)
    moreover have "(0::rat) < of_int maxP" using tmax target by simp
    ultimately show ?thesis by (simp only: mult_le_cancel_right_pos)
  qed
  show ?thesis
    using res pk scan(1,2) opt small unfolding maxP_def by blast
qed

text \<open>The sum of integer prices computed in doubles, in the order of the list, is exact up to \<open>2\<^sup>5\<^sup>3\<close>.\<close>

lemma foldl_num_add_exact:
  assumes "\<forall>t\<in>set xs. \<exists>p. price t = Num p \<and> price_val t = p \<and> p \<in> \<int> \<and> 0 < p"
    and "a \<in> \<int>" and "0 \<le> a" and "a + sum_list (map price_val xs) \<le> 2 ^ 53"
  shows "foldl num_add (Num a) (map price xs) = Num (a + sum_list (map price_val xs))"
  using assms
proof (induction xs arbitrary: a)
  case Nil
  then show ?case by simp
next
  case (Cons t xs)
  from Cons.prems(1) obtain p where p: "price t = Num p" "price_val t = p" "p \<in> \<int>" "0 < p"
    by auto
  have rest: "\<forall>u\<in>set xs. \<exists>q. price u = Num q \<and> price_val u = q \<and> q \<in> \<int> \<and> 0 < q"
    using Cons.prems(1) by simp
  have nn: "0 \<le> sum_list (map price_val xs)"
  proof (rule sum_list_nonneg)
    fix x assume "x \<in> set (map price_val xs)"
    then obtain u where "u \<in> set xs" "x = price_val u" by auto
    with rest show "0 \<le> x" by force
  qed
  have le: "a + p \<le> 2 ^ 53" using Cons.prems(4) p(2) nn by simp
  have step: "num_add (Num a) (Num p) = Num (a + p)"
    using num_add_exact [OF Cons.prems(2) p(3) _ le] Cons.prems(3) p(4) by simp
  have "foldl num_add (Num (a + p)) (map price xs) = Num (a + p + sum_list (map price_val xs))"
  proof (rule Cons.IH [OF rest])
    show "a + p \<in> \<int>" using Cons.prems(2) p(3) by simp
    show "0 \<le> a + p" using Cons.prems(3) p(4) by simp
    show "a + p + sum_list (map price_val xs) \<le> 2 ^ 53" using Cons.prems(4) p(2) by (simp add: add.assoc)
  qed
  then show ?case using p step by (simp add: add.assoc)
qed

subsection \<open>Rounding an integer above \<open>2\<^sup>5\<^sup>3\<close>\<close>

lemma round_half_even_frac:
  assumes "0 < d"
  shows "round_half_even (of_int n / of_int d) =
    (if 2 * (n mod d) < d then n div d
     else if d < 2 * (n mod d) then n div d + 1
     else if even (n div d) then n div d else n div d + 1)"
proof -
  let ?x = "rat_of_int n / of_int d"
  have d: "(0::rat) < of_int d" using assms by simp
  have fl: "\<lfloor>?x\<rfloor> = n div d" by (rule floor_divide_of_int_eq)
  have "rat_of_int n = of_int (n div d * d + n mod d)" by simp
  also have "\<dots> = of_int (n div d) * of_int d + of_int (n mod d)" by (simp only: of_int_add of_int_mult)
  finally have "?x = of_int (n div d) + of_int (n mod d) / of_int d"
    using d by (simp add: field_simps)
  then have fr: "?x - of_int (n div d) = of_int (n mod d) / of_int d" by simp
  have lt: "of_int (n mod d) / rat_of_int d < 1 / 2 \<longleftrightarrow> 2 * (n mod d) < d"
  proof -
    have "of_int (n mod d) / rat_of_int d < 1 / 2 \<longleftrightarrow> rat_of_int (2 * (n mod d)) < of_int d"
      using d by (simp add: field_simps)
    then show ?thesis by (simp only: of_int_less_iff)
  qed
  have gt: "1 / 2 < of_int (n mod d) / rat_of_int d \<longleftrightarrow> d < 2 * (n mod d)"
  proof -
    have "1 / 2 < of_int (n mod d) / rat_of_int d \<longleftrightarrow> rat_of_int d < of_int (2 * (n mod d))"
      using d by (simp add: field_simps)
    then show ?thesis by (simp only: of_int_less_iff)
  qed
  show ?thesis
    unfolding round_half_even_def Let_def fl fr lt gt by simp
qed

text \<open>
  A double in \<open>[2\<^bsup>52+k\<^esup>, 2\<^bsup>53+k\<^esup>)\<close> is a multiple of \<open>2\<^sup>k\<close>: an integer \<open>n\<close> of that
  range rounds to the nearest multiple, a tie to the multiple with an even quotient.
\<close>

lemma double_round_int:
  assumes lo: "2 ^ (52 + k) \<le> n" and hi: "n < 2 * 2 ^ (52 + k)"
  shows "double_round (of_int n) =
    (if 2 ^ 1024 \<le> (if 2 * (n mod 2 ^ k) < 2 ^ k then n div 2 ^ k
                     else if 2 ^ k < 2 * (n mod 2 ^ k) then n div 2 ^ k + 1
                     else if even (n div 2 ^ k) then n div 2 ^ k else n div 2 ^ k + 1) * 2 ^ k
     then Infinity
     else Num (of_int ((if 2 * (n mod 2 ^ k) < 2 ^ k then n div 2 ^ k
                     else if 2 ^ k < 2 * (n mod 2 ^ k) then n div 2 ^ k + 1
                     else if even (n div 2 ^ k) then n div 2 ^ k else n div 2 ^ k + 1) * 2 ^ k)))"
proof -
  define m where "m = (if 2 * (n mod 2 ^ k) < 2 ^ k then n div 2 ^ k
                     else if 2 ^ k < 2 * (n mod 2 ^ k) then n div 2 ^ k + 1
                     else if even (n div 2 ^ k) then n div 2 ^ k else n div 2 ^ k + 1)"
  have "(0::int) < 2 ^ (52 + k)" by simp
  with lo have n: "0 < n" by linarith
  have nz: "rat_of_int n \<noteq> 0" and ab: "\<bar>rat_of_int n\<bar> = of_int n" and pos: "(0::rat) < of_int n"
    using n by simp_all
  have fl: "floor_log2 (rat_of_int n) = int (52 + k)" using floor_log2_int [OF lo hi] .
  have mx: "max (int (52 + k)) (- 1022) = int (52 + k)" by simp
  have q: "pow2 (int (52 + k) - 52) = of_int (2 ^ k)" by (simp add: pow2_def)
  have r: "round_half_even (rat_of_int n / of_int (2 ^ k)) = m"
    unfolding m_def by (rule round_half_even_frac) simp
  have m0: "0 \<le> m"
  proof -
    have "0 \<le> n div 2 ^ k" using n by (simp add: pos_imp_zdiv_nonneg_iff)
    then show ?thesis by (simp add: m_def)
  qed
  have y: "\<bar>rat_of_int m * of_int (2 ^ k)\<bar> = of_int (m * 2 ^ k)" using m0 by simp
  have c: "(2 ^ 1024 \<le> rat_of_int (m * 2 ^ k)) = (2 ^ 1024 \<le> m * 2 ^ k)"
  proof -
    have "(rat_of_int (2 ^ 1024) \<le> rat_of_int (m * 2 ^ k)) = (2 ^ 1024 \<le> m * 2 ^ k)"
      by (simp only: of_int_le_iff)
    then show ?thesis by simp
  qed
  have "double_round (of_int n) =
      (if 2 ^ 1024 \<le> m * 2 ^ k then Infinity else Num (of_int (m * 2 ^ k)))"
    unfolding double_round_def Let_def ab fl mx q r y c using nz pos by simp
  then show ?thesis unfolding m_def .
qed

lemma num_add_int:
  assumes "2 ^ (52 + k) \<le> a + b" and "a + b < 2 * 2 ^ (52 + k)"
  shows "num_add (Num (of_int a)) (Num (of_int b)) =
    (if 2 ^ 1024 \<le> (if 2 * ((a + b) mod 2 ^ k) < 2 ^ k then (a + b) div 2 ^ k
                     else if 2 ^ k < 2 * ((a + b) mod 2 ^ k) then (a + b) div 2 ^ k + 1
                     else if even ((a + b) div 2 ^ k) then (a + b) div 2 ^ k
                     else (a + b) div 2 ^ k + 1) * 2 ^ k
     then Infinity
     else Num (of_int ((if 2 * ((a + b) mod 2 ^ k) < 2 ^ k then (a + b) div 2 ^ k
                     else if 2 ^ k < 2 * ((a + b) mod 2 ^ k) then (a + b) div 2 ^ k + 1
                     else if even ((a + b) div 2 ^ k) then (a + b) div 2 ^ k
                     else (a + b) div 2 ^ k + 1) * 2 ^ k)))"
  using double_round_int [OF assms] by simp

lemma num_add_small:
  assumes "0 \<le> a + b" and "a + b \<le> 2 ^ 53"
  shows "num_add (Num (of_int a)) (Num (of_int b)) = Num (of_int (a + b))"
  using double_round_exact [OF assms] by simp

subsection \<open>Auxiliary facts for the claims\<close>

lemma replicate_numeral: "replicate (numeral k) x = x # replicate (pred_numeral k) x"
  by (simp add: numeral_eq_Suc)

text \<open>The equations that run the solver on a concrete input.\<close>

lemmas solver_eval = findOptimalPlan_def buildTable_def new_Array_def maxRP_of_def Let_def
  fillLoop.simps scanLoop.simps walk.simps walk_cond_def walk_body_def parent_at_def
  replicate_numeral

lemma valid_tiers_D:
  assumes "valid_tiers tiers"
  shows "tiers \<noteq> []" and "\<forall>t\<in>set tiers. 0 < rp t"
  using assms by (simp_all add: valid_tiers_iff)

lemma solver_spec_valid:
  assumes "valid_tiers tiers" and "exact_prices targetRP tiers"
    and "allocatable targetRP tiers" and "0 < targetRP"
  shows "\<exists>pk b c. findOptimalPlan targetRP tiers =
      Some (Inr \<lparr>packages = pk, totalRP = b, totalPrice = Num c\<rparr>) \<and>
    set pk \<subseteq> set tiers \<and> total_amount (mset pk) = b \<and> total_cost (mset pk) = c \<and>
    targetRP \<le> b \<and> b \<le> targetRP + maxRP_of tiers \<and>
    (\<forall>M. set_mset M \<subseteq> set tiers \<and> targetRP \<le> total_amount M \<longrightarrow>
       c \<le> total_cost M \<and> (total_cost M = c \<longrightarrow> b \<le> total_amount M)) \<and>
    c \<le> 2 ^ 53"
  using solver_spec [OF valid_tiers_D(2,1) [OF assms(1)] assms(2,3,4)] .

text \<open>Counting in a catalogue of three packages, and the arithmetic of the scenario of the specification.\<close>

lemma sum_mset_three:
  fixes f :: "RPPackage \<Rightarrow> 'a::comm_semiring_1"
  assumes "a \<noteq> b" "a \<noteq> c" "b \<noteq> c"
  shows "set_mset M \<subseteq> {a, b, c} \<Longrightarrow>
    sum_mset (image_mset f M) =
      of_nat (count M a) * f a + of_nat (count M b) * f b + of_nat (count M c) * f c"
  using assms by (induction M) (auto simp: algebra_simps)

lemma scenario_arith_lower:
  fixes x y z :: nat
  assumes "1820 \<le> 480 * int x + 980 * int y + 1425 * int z"
  shows "18900 \<le> 4900 * int x + 9900 * int y + 14000 * int z"
proof -
  consider "2 \<le> z" | "z = 1" | "z = 0" "2 \<le> y" | "z = 0" "y = 1" | "z = 0" "y = 0" by linarith
  then show ?thesis
  proof cases
    case 1 then show ?thesis by linarith
  next
    case 2
    with assms have "1 \<le> x \<or> 1 \<le> y" by linarith
    with 2 show ?thesis by linarith
  next
    case 3 then show ?thesis by linarith
  next
    case 4
    with assms have "2 \<le> x" by linarith
    with 4 show ?thesis by linarith
  next
    case 5
    with assms have "4 \<le> x" by linarith
    with 5 show ?thesis by linarith
  qed
qed

lemma scenario_arith_unique:
  fixes x y z :: nat
  assumes "4900 * int x + 9900 * int y + 14000 * int z = 18900"
  shows "x = 1 \<and> y = 0 \<and> z = 1"
proof -
  have z: "z \<le> 1" using assms by linarith
  have y: "y \<le> 1" using assms by linarith
  have x: "x \<le> 3" using assms by linarith
  from z have "z = 0 \<or> z = 1" by linarith
  moreover from y have "y = 0 \<or> y = 1" by linarith
  moreover from x have "x = 0 \<or> x = 1 \<or> x = 2 \<or> x = 3" by linarith
  ultimately show ?thesis using assms by auto
qed

text \<open>A purchase of \<open>n\<close> packages costs at least \<open>n\<close> times a lower bound of the prices.\<close>

lemma total_cost_size:
  assumes "\<forall>t\<in>#M. c \<le> price_val t"
  shows "of_nat (size M) * c \<le> total_cost M"
  using assms by (induction M) (auto simp: algebra_simps)

lemma mset_size_two:
  assumes "size M = 2"
  shows "\<exists>a b. M = {#a, b#}"
proof (cases M)
  case empty
  with assms show ?thesis by simp
next
  case (add a N)
  with assms have "size N = 1" by simp
  then obtain b where "N = {#b#}" using size_1_singleton_mset by blast
  with add show ?thesis by blast
qed

section \<open>The claims\<close>

text \<open>
  Claim C1 says that no multiset of packages reaching the target costs strictly less than
  the returned \<open>totalPrice\<close>. The cost array holds doubles. With one package of amount \<open>1\<close>
  at price \<open>2\<^sup>5\<^sup>3 + 2\<close> and target \<open>3\<close>, the price of three packages,
  \<open>27021597764222982\<close>, is not a double: the code returns the double above it,
  \<open>27021597764222984\<close>, and the three returned packages cost strictly less than that.
\<close>

theorem optimality_counterexample:
  "valid_tiers [\<lparr>id_pkg = 1, rp = 1, price = Num 9007199254740994\<rparr>] \<and>
   findOptimalPlan 3 [\<lparr>id_pkg = 1, rp = 1, price = Num 9007199254740994\<rparr>] =
     Some (Inr \<lparr>packages = [\<lparr>id_pkg = 1, rp = 1, price = Num 9007199254740994\<rparr>,
       \<lparr>id_pkg = 1, rp = 1, price = Num 9007199254740994\<rparr>,
       \<lparr>id_pkg = 1, rp = 1, price = Num 9007199254740994\<rparr>],
       totalRP = 3, totalPrice = Num 27021597764222984\<rparr>) \<and>
   set_mset {#\<lparr>id_pkg = 1, rp = 1, price = Num 9007199254740994\<rparr>,
     \<lparr>id_pkg = 1, rp = 1, price = Num 9007199254740994\<rparr>,
     \<lparr>id_pkg = 1, rp = 1, price = Num 9007199254740994\<rparr>#} \<subseteq> set [\<lparr>id_pkg = 1, rp = 1, price = Num 9007199254740994\<rparr>] \<and>
   3 \<le> total_amount {#\<lparr>id_pkg = 1, rp = 1, price = Num 9007199254740994\<rparr>,
     \<lparr>id_pkg = 1, rp = 1, price = Num 9007199254740994\<rparr>,
     \<lparr>id_pkg = 1, rp = 1, price = Num 9007199254740994\<rparr>#} \<and>
   total_cost {#\<lparr>id_pkg = 1, rp = 1, price = Num 9007199254740994\<rparr>,
     \<lparr>id_pkg = 1, rp = 1, price = Num 9007199254740994\<rparr>,
     \<lparr>id_pkg = 1, rp = 1, price = Num 9007199254740994\<rparr>#} = 27021597764222982 \<and>
   total_cost {#\<lparr>id_pkg = 1, rp = 1, price = Num 9007199254740994\<rparr>,
     \<lparr>id_pkg = 1, rp = 1, price = Num 9007199254740994\<rparr>,
     \<lparr>id_pkg = 1, rp = 1, price = Num 9007199254740994\<rparr>#} < 27021597764222984"
proof -
  have a1: "num_add (Num 0) (Num 9007199254740994) = Num 9007199254740994"
    using num_add_int [of 1 0 9007199254740994] by simp
  have a2: "num_add (Num 9007199254740994) (Num 9007199254740994) = Num 18014398509481988"
    using num_add_int [of 2 9007199254740994 9007199254740994] by simp
  have a3: "num_add (Num 18014398509481988) (Num 9007199254740994) = Num 27021597764222984"
    using num_add_int [of 2 18014398509481988 9007199254740994] by simp
  have a4: "num_add (Num 27021597764222984) (Num 9007199254740994) = Num 36028797018963976"
    using num_add_int [of 3 27021597764222984 9007199254740994] by simp
  have e: "findOptimalPlan 3 [\<lparr>id_pkg = 1, rp = 1, price = Num 9007199254740994\<rparr>] =
     Some (Inr \<lparr>packages = [\<lparr>id_pkg = 1, rp = 1, price = Num 9007199254740994\<rparr>,
       \<lparr>id_pkg = 1, rp = 1, price = Num 9007199254740994\<rparr>,
       \<lparr>id_pkg = 1, rp = 1, price = Num 9007199254740994\<rparr>],
       totalRP = 3, totalPrice = Num 27021597764222984\<rparr>)"
    by (simp add: solver_eval a1 a2 a3 a4 del: num_add.simps)
  show ?thesis
    unfolding e by (simp add: valid_tiers_def price_val_def)
qed

text \<open>
  Claim C1 (optimality), as the code has it. Take a non-empty catalogue with strictly
  positive amounts whose prices are positive integers \<open>p\<close> with
  \<open>p * (targetRP + maxRP) \<le> 2\<^sup>5\<^sup>3\<close> (every sum the fill computes is then exact), a target
  above \<open>0\<close>, and \<open>targetRP + maxRP + 1 \<le> 2\<^sup>3\<^sup>2 - 1\<close> (the arrays can be allocated). Then
  the solver returns a plan with a finite \<open>totalPrice\<close>, and no multiset of packages whose
  amounts sum to at least the target has a total price strictly below it.
\<close>

theorem optimality:
  assumes "valid_tiers tiers" and "exact_prices targetRP tiers"
    and "allocatable targetRP tiers" and "0 < targetRP"
    and "set_mset M \<subseteq> set tiers" and "targetRP \<le> total_amount M"
  shows "\<exists>p c. findOptimalPlan targetRP tiers = Some (Inr p) \<and> totalPrice p = Num c \<and>
    \<not> total_cost M < c"
proof -
  from solver_spec_valid [OF assms(1,2,3,4)] obtain pk b c where
    res: "findOptimalPlan targetRP tiers =
      Some (Inr \<lparr>packages = pk, totalRP = b, totalPrice = Num c\<rparr>)"
    and opt: "\<forall>M. set_mset M \<subseteq> set tiers \<and> targetRP \<le> total_amount M \<longrightarrow>
       c \<le> total_cost M \<and> (total_cost M = c \<longrightarrow> b \<le> total_amount M)"
    by blast
  from opt assms(5,6) have "c \<le> total_cost M" by blast
  with res show ?thesis by simp
qed

theorem optimality_witness:
  "valid_tiers [\<lparr>id_pkg = 1, rp = 2, price = Num 3\<rparr>,
    \<lparr>id_pkg = 2, rp = 3, price = Num 4\<rparr>] \<and>
   exact_prices 5 [\<lparr>id_pkg = 1, rp = 2, price = Num 3\<rparr>,
     \<lparr>id_pkg = 2, rp = 3, price = Num 4\<rparr>] \<and>
   allocatable 5 [\<lparr>id_pkg = 1, rp = 2, price = Num 3\<rparr>,
     \<lparr>id_pkg = 2, rp = 3, price = Num 4\<rparr>] \<and> (0::int) < 5 \<and>
   set_mset {#\<lparr>id_pkg = 2, rp = 3, price = Num 4\<rparr>,
     \<lparr>id_pkg = 2, rp = 3, price = Num 4\<rparr>#} \<subseteq> set [\<lparr>id_pkg = 1, rp = 2, price = Num 3\<rparr>,
     \<lparr>id_pkg = 2, rp = 3, price = Num 4\<rparr>] \<and>
   5 \<le> total_amount {#\<lparr>id_pkg = 2, rp = 3, price = Num 4\<rparr>,
     \<lparr>id_pkg = 2, rp = 3, price = Num 4\<rparr>#} \<and>
   (\<exists>p c. findOptimalPlan 5 [\<lparr>id_pkg = 1, rp = 2, price = Num 3\<rparr>,
     \<lparr>id_pkg = 2, rp = 3, price = Num 4\<rparr>] = Some (Inr p) \<and>
      totalPrice p = Num c \<and>
      \<not> total_cost {#\<lparr>id_pkg = 2, rp = 3, price = Num 4\<rparr>,
        \<lparr>id_pkg = 2, rp = 3, price = Num 4\<rparr>#} < c)"
proof -
  let ?T = "[\<lparr>id_pkg = 1, rp = 2, price = Num 3\<rparr>,
    \<lparr>id_pkg = 2, rp = 3, price = Num 4\<rparr>]"
  let ?M = "{#\<lparr>id_pkg = 2, rp = 3, price = Num 4\<rparr>,
    \<lparr>id_pkg = 2, rp = 3, price = Num 4\<rparr>#}"
  have v: "valid_tiers ?T" by (simp add: valid_tiers_def)
  have x: "exact_prices 5 ?T" by (simp add: exact_prices_def maxRP_of_def)
  have l: "allocatable 5 ?T" by (simp add: allocatable_def maxRP_of_def)
  have t: "(0::int) < 5" by simp
  have s: "set_mset ?M \<subseteq> set ?T" by simp
  have a: "5 \<le> total_amount ?M" by simp
  from optimality [OF v x l t s a] v x l s a show ?thesis by simp
qed

text \<open>
  Claim C2 says that the solver returns a plan for every valid catalogue and every target
  above \<open>0\<close>. The arrays have \<open>targetRP + maxRP + 1\<close> entries: with one package of amount
  \<open>1\<close> and target \<open>4294967295\<close> the length is \<open>2\<^sup>3\<^sup>2 + 1\<close> and \<^verbatim>\<open>new Array\<close> throws a
  \<^verbatim>\<open>RangeError\<close>; no plan is returned.
\<close>

theorem feasibility_counterexample:
  "valid_tiers [\<lparr>id_pkg = 1, rp = 1, price = Num 1\<rparr>] \<and> (0::int) < 4294967295 \<and>
   findOptimalPlan 4294967295 [\<lparr>id_pkg = 1, rp = 1, price = Num 1\<rparr>] = Some (Inl RangeError)"
  by (simp add: valid_tiers_def findOptimalPlan_def buildTable_def new_Array_def maxRP_of_def)

text \<open>
  Claim C2 (feasibility), as the code has it. For a non-empty catalogue with strictly
  positive amounts and prices, a target above \<open>0\<close> and
  \<open>targetRP + maxRP + 1 \<le> 2\<^sup>3\<^sup>2 - 1\<close>, the solver returns a plan whose \<open>totalRP\<close> is at
  least the target.
\<close>

theorem feasibility:
  assumes "valid_tiers tiers" and "allocatable targetRP tiers" and "0 < targetRP"
  shows "\<exists>p. findOptimalPlan targetRP tiers = Some (Inr p) \<and> targetRP \<le> totalRP p"
proof -
  from solver_run [OF valid_tiers_D(2) [OF assms(1)] assms(3,2)] obtain pk b mp where
    "findOptimalPlan targetRP tiers =
      Some (Inr \<lparr>packages = pk, totalRP = b, totalPrice = mp\<rparr>)"
    "targetRP \<le> b"
    by blast
  then show ?thesis by simp
qed

theorem feasibility_witness:
  "valid_tiers [\<lparr>id_pkg = 1, rp = 100, price = Num 10\<rparr>] \<and>
   allocatable 250 [\<lparr>id_pkg = 1, rp = 100, price = Num 10\<rparr>] \<and> (0::int) < 250 \<and>
   (\<exists>p. findOptimalPlan 250 [\<lparr>id_pkg = 1, rp = 100, price = Num 10\<rparr>] = Some (Inr p) \<and>
      250 \<le> totalRP p)"
proof -
  let ?T = "[\<lparr>id_pkg = 1, rp = 100, price = Num 10\<rparr>]"
  have v: "valid_tiers ?T" by (simp add: valid_tiers_def)
  have l: "allocatable 250 ?T" by (simp add: allocatable_def maxRP_of_def)
  have t: "(0::int) < 250" by simp
  from feasibility [OF v l t] v l show ?thesis by simp
qed

text \<open>
  Claim C3 says that the solver fails with an invalid-input condition on an empty
  catalogue and a positive target. The source has no such check: at target \<open>100\<close> the call
  returns a plan without packages whose price is \<open>Infinity\<close>.
\<close>

theorem empty_catalogue_counterexample:
  "findOptimalPlan 100 [] =
     Some (Inr \<lparr>packages = [], totalRP = 100, totalPrice = Infinity\<rparr>)"
  using solver_Nil [of 100] by simp

text \<open>
  Claim C3, as the code has it. On an empty catalogue and a target above \<open>0\<close>: up to the
  target \<open>2\<^sup>3\<^sup>2 - 2\<close> the solver returns, without any error, the plan with no packages,
  \<open>totalRP\<close> equal to the target and \<open>totalPrice\<close> equal to \<open>Infinity\<close>; above, the array
  of \<open>targetRP + 1\<close> entries cannot be allocated and the call throws a \<^verbatim>\<open>RangeError\<close>.
\<close>

theorem empty_catalogue_outcome:
  assumes "0 < targetRP"
  shows "findOptimalPlan targetRP [] =
    (if targetRP \<le> 4294967294
     then Some (Inr \<lparr>packages = [], totalRP = targetRP, totalPrice = Infinity\<rparr>)
     else Some (Inl RangeError))"
proof (cases "targetRP \<le> 4294967294")
  case True
  with solver_Nil [OF assms] show ?thesis by simp
next
  case False
  then have "\<not> allocatable targetRP []" by (simp add: allocatable_def maxRP_of_def)
  from findOptimalPlan_RangeError [OF assms this] False show ?thesis by simp
qed

theorem empty_catalogue_outcome_witness:
  "(0::int) < 7 \<and> (0::int) < 4294967295 \<and>
   findOptimalPlan 7 [] = Some (Inr \<lparr>packages = [], totalRP = 7, totalPrice = Infinity\<rparr>) \<and>
   findOptimalPlan 4294967295 [] = Some (Inl RangeError)"
proof -
  have a: "(0::int) < 7" and b: "(0::int) < 4294967295" by simp_all
  from empty_catalogue_outcome [OF a] empty_catalogue_outcome [OF b] show ?thesis by simp
qed

text \<open>
  Claim C4 says that the solver reports an internal error when no amount in the scanned
  range \<open>targetRP .. targetRP + maxRP\<close> is reachable, and the specification holds that this
  cannot happen for a valid catalogue. The source has no error path, and it does happen:
  with one package of amount \<open>1\<close> at price \<open>2\<^sup>1\<^sup>0\<^sup>2\<^sup>3\<close> and target \<open>2\<close>, the price of two
  packages overflows to \<open>Infinity\<close>, which is not below the \<open>Infinity\<close> the entry holds, so the
  entries \<open>2\<close> and \<open>3\<close> stay unreached; the solver returns a plan without packages.
\<close>

theorem unreachable_counterexample:
  "valid_tiers [\<lparr>id_pkg = 1, rp = 1, price = Num (2 ^ 1023)\<rparr>] \<and>
   buildTable (2 + maxRP_of [\<lparr>id_pkg = 1, rp = 1, price = Num (2 ^ 1023)\<rparr>]) [\<lparr>id_pkg = 1, rp = 1, price = Num (2 ^ 1023)\<rparr>] =
     Inr ([Num 0, Num (2 ^ 1023), Infinity, Infinity],
          [None, Some (\<lparr>id_pkg = 1, rp = 1, price = Num (2 ^ 1023)\<rparr>, 0),
        None, None]) \<and>
   findOptimalPlan 2 [\<lparr>id_pkg = 1, rp = 1, price = Num (2 ^ 1023)\<rparr>] =
     Some (Inr \<lparr>packages = [], totalRP = 2, totalPrice = Infinity\<rparr>)"
proof -
  have a1: "num_add (Num 0) (Num (2 ^ 1023)) = Num (2 ^ 1023)"
    using num_add_int [of 971 0 "2 ^ 1023"] by simp
  have a2: "num_add (Num (2 ^ 1023)) (Num (2 ^ 1023)) = Infinity"
    using num_add_int [of 972 "2 ^ 1023" "2 ^ 1023"] by simp
  show ?thesis
    by (simp add: valid_tiers_def solver_eval a1 a2 del: num_add.simps power_numeral)
qed

text \<open>
  Claim C4, as the code has it. For any catalogue and a target above \<open>0\<close>: if the arrays are
  allocated (which needs \<open>targetRP + maxRP + 1 \<le> 2\<^sup>3\<^sup>2 - 1\<close>) and every entry of the cost
  array in the scanned range is \<open>Infinity\<close>, the solver returns, without any error, the plan
  with no packages, \<open>totalRP\<close> equal to the target and \<open>totalPrice\<close> equal to \<open>Infinity\<close>.
\<close>

theorem unreachable_returns_plan:
  assumes "0 < targetRP"
    and "buildTable (targetRP + maxRP_of tiers) tiers = Inr (dp, parent)"
    and "\<forall>k. targetRP \<le> k \<and> k \<le> targetRP + maxRP_of tiers \<longrightarrow> dp ! nat k = Infinity"
  shows "allocatable targetRP tiers \<and>
    findOptimalPlan targetRP tiers =
      Some (Inr \<lparr>packages = [], totalRP = targetRP, totalPrice = Infinity\<rparr>)"
proof -
  have "0 \<le> targetRP + maxRP_of tiers" using assms(1) maxRP_of_nonneg [of tiers] by simp
  from buildTable_facts(5) [OF assms(2) this] have "allocatable targetRP tiers"
    by (simp add: allocatable_def)
  with solver_unreachable [OF assms] show ?thesis by simp
qed

theorem unreachable_returns_plan_witness:
  "valid_tiers [\<lparr>id_pkg = 1, rp = 1, price = Num (2 ^ 1023)\<rparr>] \<and> (0::int) < 3 \<and>
   buildTable (3 + maxRP_of [\<lparr>id_pkg = 1, rp = 1, price = Num (2 ^ 1023)\<rparr>]) [\<lparr>id_pkg = 1, rp = 1, price = Num (2 ^ 1023)\<rparr>] =
     Inr ([Num 0, Num (2 ^ 1023), Infinity, Infinity, Infinity],
          [None, Some (\<lparr>id_pkg = 1, rp = 1, price = Num (2 ^ 1023)\<rparr>, 0),
        None, None, None]) \<and>
   [Num 0, Num (2 ^ 1023), Infinity, Infinity, Infinity] ! nat 3 = Infinity \<and>
   [Num 0, Num (2 ^ 1023), Infinity, Infinity, Infinity] ! nat 4 = Infinity \<and>
   allocatable 3 [\<lparr>id_pkg = 1, rp = 1, price = Num (2 ^ 1023)\<rparr>] \<and>
   findOptimalPlan 3 [\<lparr>id_pkg = 1, rp = 1, price = Num (2 ^ 1023)\<rparr>] =
     Some (Inr \<lparr>packages = [], totalRP = 3, totalPrice = Infinity\<rparr>)"
proof -
  let ?T = "[\<lparr>id_pkg = 1, rp = 1, price = Num (2 ^ 1023)\<rparr>]"
  let ?dp = "[Num 0, Num (2 ^ 1023), Infinity, Infinity, Infinity]"
  let ?parent = "[None, Some (\<lparr>id_pkg = 1, rp = 1, price = Num (2 ^ 1023)\<rparr>, 0),
    None, None, None]"
  have b1: "num_add (Num 0) (Num (2 ^ 1023)) = Num (2 ^ 1023)"
    using num_add_int [of 971 0 "2 ^ 1023"] by simp
  have b2: "num_add (Num (2 ^ 1023)) (Num (2 ^ 1023)) = Infinity"
    using num_add_int [of 972 "2 ^ 1023" "2 ^ 1023"] by simp
  have v: "valid_tiers ?T" by (simp add: valid_tiers_def)
  have t: "(0::int) < 3" by simp
  have m: "maxRP_of ?T = 1" by (simp add: maxRP_of_def)
  have tb: "buildTable (3 + maxRP_of ?T) ?T = Inr (?dp, ?parent)"
    by (simp add: solver_eval b1 b2 del: num_add.simps power_numeral)
  have e3: "?dp ! nat 3 = Infinity" and e4: "?dp ! nat 4 = Infinity" by simp_all
  have u: "\<forall>k. 3 \<le> k \<and> k \<le> 3 + maxRP_of ?T \<longrightarrow> ?dp ! nat k = Infinity"
  proof (intro allI impI)
    fix k :: int assume "3 \<le> k \<and> k \<le> 3 + maxRP_of ?T"
    then have "k = 3 \<or> k = 4" using m by auto
    then show "?dp ! nat k = Infinity" using e3 e4 by auto
  qed
  from unreachable_returns_plan [OF t tb u] v tb e3 e4 show ?thesis by simp
qed

text \<open>
  Claim C5 says that the solver returns the smallest of the amounts that reach the
  minimum total price. Take the packages \<open>1\<close> at \<open>2\<^sup>5\<^sup>3\<close>, \<open>2\<close> at \<open>2\<^sup>5\<^sup>3 + 2\<close>, \<open>4\<close> at
  \<open>2\<^sup>5\<^sup>4\<close> and \<open>5\<close> at \<open>2\<^sup>5\<^sup>4\<close>, and the target \<open>3\<close>. The minimum price of a purchase
  reaching the target is \<open>2\<^sup>5\<^sup>4\<close>; the amounts \<open>4\<close> and \<open>5\<close> reach it, and no purchase of
  amount \<open>3\<close> does (the cheapest costs \<open>2\<^sup>5\<^sup>4 + 2\<close>). The sum \<open>2\<^sup>5\<^sup>3 + (2\<^sup>5\<^sup>3 + 2)\<close> is
  rounded to the double \<open>2\<^sup>5\<^sup>4\<close>, so the code sees a tie and returns the amount \<open>3\<close>.
\<close>

theorem tie_break_counterexample:
  "valid_tiers [\<lparr>id_pkg = 1, rp = 1, price = Num 9007199254740992\<rparr>,
    \<lparr>id_pkg = 2, rp = 2, price = Num 9007199254740994\<rparr>,
    \<lparr>id_pkg = 3, rp = 4, price = Num 18014398509481984\<rparr>,
    \<lparr>id_pkg = 4, rp = 5, price = Num 18014398509481984\<rparr>] \<and>
   findOptimalPlan 3 [\<lparr>id_pkg = 1, rp = 1, price = Num 9007199254740992\<rparr>,
     \<lparr>id_pkg = 2, rp = 2, price = Num 9007199254740994\<rparr>,
     \<lparr>id_pkg = 3, rp = 4, price = Num 18014398509481984\<rparr>,
     \<lparr>id_pkg = 4, rp = 5, price = Num 18014398509481984\<rparr>] =
     Some (Inr \<lparr>packages = [\<lparr>id_pkg = 2, rp = 2, price = Num 9007199254740994\<rparr>,
       \<lparr>id_pkg = 1, rp = 1, price = Num 9007199254740992\<rparr>],
       totalRP = 3, totalPrice = Num 18014398509481984\<rparr>) \<and>
   set_mset {#\<lparr>id_pkg = 3, rp = 4, price = Num 18014398509481984\<rparr>#} \<subseteq> set [\<lparr>id_pkg = 1, rp = 1, price = Num 9007199254740992\<rparr>,
     \<lparr>id_pkg = 2, rp = 2, price = Num 9007199254740994\<rparr>,
     \<lparr>id_pkg = 3, rp = 4, price = Num 18014398509481984\<rparr>,
     \<lparr>id_pkg = 4, rp = 5, price = Num 18014398509481984\<rparr>] \<and>
   total_amount {#\<lparr>id_pkg = 3, rp = 4, price = Num 18014398509481984\<rparr>#} = 4 \<and>
   total_cost {#\<lparr>id_pkg = 3, rp = 4, price = Num 18014398509481984\<rparr>#} = 18014398509481984 \<and>
   set_mset {#\<lparr>id_pkg = 4, rp = 5, price = Num 18014398509481984\<rparr>#} \<subseteq> set [\<lparr>id_pkg = 1, rp = 1, price = Num 9007199254740992\<rparr>,
     \<lparr>id_pkg = 2, rp = 2, price = Num 9007199254740994\<rparr>,
     \<lparr>id_pkg = 3, rp = 4, price = Num 18014398509481984\<rparr>,
     \<lparr>id_pkg = 4, rp = 5, price = Num 18014398509481984\<rparr>] \<and>
   total_amount {#\<lparr>id_pkg = 4, rp = 5, price = Num 18014398509481984\<rparr>#} = 5 \<and>
   total_cost {#\<lparr>id_pkg = 4, rp = 5, price = Num 18014398509481984\<rparr>#} = 18014398509481984 \<and>
   \<not> (\<exists>M. set_mset M \<subseteq> set [\<lparr>id_pkg = 1, rp = 1, price = Num 9007199254740992\<rparr>,
     \<lparr>id_pkg = 2, rp = 2, price = Num 9007199254740994\<rparr>,
     \<lparr>id_pkg = 3, rp = 4, price = Num 18014398509481984\<rparr>,
     \<lparr>id_pkg = 4, rp = 5, price = Num 18014398509481984\<rparr>] \<and>
          3 \<le> total_amount M \<and> total_cost M < 18014398509481984) \<and>
   \<not> (\<exists>M. set_mset M \<subseteq> set [\<lparr>id_pkg = 1, rp = 1, price = Num 9007199254740992\<rparr>,
     \<lparr>id_pkg = 2, rp = 2, price = Num 9007199254740994\<rparr>,
     \<lparr>id_pkg = 3, rp = 4, price = Num 18014398509481984\<rparr>,
     \<lparr>id_pkg = 4, rp = 5, price = Num 18014398509481984\<rparr>] \<and>
          total_amount M = 3 \<and> total_cost M \<le> 18014398509481984)"
proof -
  let ?t1 = "\<lparr>id_pkg = 1, rp = 1, price = Num 9007199254740992\<rparr>"
  let ?t2 = "\<lparr>id_pkg = 2, rp = 2, price = Num 9007199254740994\<rparr>"
  let ?t3 = "\<lparr>id_pkg = 3, rp = 4, price = Num 18014398509481984\<rparr>"
  let ?t4 = "\<lparr>id_pkg = 4, rp = 5, price = Num 18014398509481984\<rparr>"
  let ?T = "[?t1, ?t2, ?t3, ?t4]"
  have a1: "num_add (Num 0) (Num 9007199254740992) = Num 9007199254740992"
    using num_add_small [of 0 9007199254740992] by simp
  have a2: "num_add (Num 0) (Num 9007199254740994) = Num 9007199254740994"
    using num_add_int [of 1 0 9007199254740994] by simp
  have a3: "num_add (Num 0) (Num 18014398509481984) = Num 18014398509481984"
    using num_add_int [of 2 0 18014398509481984] by simp
  have a4: "num_add (Num 9007199254740992) (Num 9007199254740992) = Num 18014398509481984"
    using num_add_int [of 2 9007199254740992 9007199254740992] by simp
  have a5: "num_add (Num 9007199254740992) (Num 9007199254740994) = Num 18014398509481984"
    using num_add_int [of 2 9007199254740992 9007199254740994] by simp
  have a6: "num_add (Num 9007199254740992) (Num 18014398509481984) = Num 27021597764222976"
    using num_add_int [of 2 9007199254740992 18014398509481984] by simp
  have a7: "num_add (Num 9007199254740994) (Num 9007199254740992) = Num 18014398509481984"
    using num_add_int [of 2 9007199254740994 9007199254740992] by simp
  have a8: "num_add (Num 9007199254740994) (Num 9007199254740994) = Num 18014398509481988"
    using num_add_int [of 2 9007199254740994 9007199254740994] by simp
  have a9: "num_add (Num 9007199254740994) (Num 18014398509481984) = Num 27021597764222976"
    using num_add_int [of 2 9007199254740994 18014398509481984] by simp
  have a10: "num_add (Num 18014398509481984) (Num 9007199254740992) = Num 27021597764222976"
    using num_add_int [of 2 18014398509481984 9007199254740992] by simp
  have a11: "num_add (Num 18014398509481984) (Num 9007199254740994) = Num 27021597764222976"
    using num_add_int [of 2 18014398509481984 9007199254740994] by simp
  have a12: "num_add (Num 18014398509481984) (Num 18014398509481984) = Num 36028797018963968"
    using num_add_int [of 3 18014398509481984 18014398509481984] by simp
  have a13: "num_add (Num 27021597764222976) (Num 9007199254740992) = Num 36028797018963968"
    using num_add_int [of 3 27021597764222976 9007199254740992] by simp
  have a14: "num_add (Num 27021597764222976) (Num 9007199254740994) = Num 36028797018963968"
    using num_add_int [of 3 27021597764222976 9007199254740994] by simp
  have e: "findOptimalPlan 3 ?T =
     Some (Inr \<lparr>packages = [\<lparr>id_pkg = 2, rp = 2, price = Num 9007199254740994\<rparr>,
       \<lparr>id_pkg = 1, rp = 1, price = Num 9007199254740992\<rparr>],
       totalRP = 3, totalPrice = Num 18014398509481984\<rparr>)"
    by (simp add: solver_eval a1 a2 a3 a4 a5 a6 a7 a8 a9 a10 a11 a12 a13 a14 del: num_add.simps)
  have v: "valid_tiers ?T" by (simp add: valid_tiers_def)
  have lo: "of_nat (size M) * 9007199254740992 \<le> total_cost M" if "set_mset M \<subseteq> set ?T" for M
  proof (rule total_cost_size, rule ballI)
    fix t assume "t \<in># M"
    with that have "t \<in> set ?T" by blast
    then have "t = ?t1 \<or> t = ?t2 \<or> t = ?t3 \<or> t = ?t4" by simp
    then show "9007199254740992 \<le> price_val t" by (auto simp: price_val_def)
  qed
  have m1: "\<not> (\<exists>M. set_mset M \<subseteq> set ?T \<and> 3 \<le> total_amount M \<and>
      total_cost M < 18014398509481984)"
  proof
    assume "\<exists>M. set_mset M \<subseteq> set ?T \<and> 3 \<le> total_amount M \<and> total_cost M < 18014398509481984"
    then obtain M where M: "set_mset M \<subseteq> set ?T" "3 \<le> total_amount M"
      "total_cost M < 18014398509481984" by blast
    have "size M < 2"
    proof (rule ccontr)
      assume "\<not> size M < 2"
      then have "(2::rat) \<le> of_nat (size M)" by simp
      then have "(2::rat) * 9007199254740992 \<le> of_nat (size M) * 9007199254740992"
        by (simp only: mult_le_cancel_right_pos zero_less_numeral)
      with lo [OF M(1)] M(3) show False by simp
    qed
    then consider "size M = 0" | "size M = 1" by linarith
    then show False
    proof cases
      case 1
      then show False using M(2) by simp
    next
      case 2
      then obtain a where a: "M = {#a#}" using size_1_singleton_mset by blast
      with M(1) have "a = ?t1 \<or> a = ?t2 \<or> a = ?t3 \<or> a = ?t4" by simp
      then show False using M(2,3) a by (auto simp: price_val_def)
    qed
  qed
  have m2: "\<not> (\<exists>M. set_mset M \<subseteq> set ?T \<and> total_amount M = 3 \<and>
      total_cost M \<le> 18014398509481984)"
  proof
    assume "\<exists>M. set_mset M \<subseteq> set ?T \<and> total_amount M = 3 \<and> total_cost M \<le> 18014398509481984"
    then obtain M where M: "set_mset M \<subseteq> set ?T" "total_amount M = 3"
      "total_cost M \<le> 18014398509481984" by blast
    have "size M < 3"
    proof (rule ccontr)
      assume "\<not> size M < 3"
      then have "(3::rat) \<le> of_nat (size M)" by simp
      then have "(3::rat) * 9007199254740992 \<le> of_nat (size M) * 9007199254740992"
        by (simp only: mult_le_cancel_right_pos zero_less_numeral)
      with lo [OF M(1)] M(3) show False by simp
    qed
    then consider "size M = 0" | "size M = 1" | "size M = 2" by linarith
    then show False
    proof cases
      case 1
      then show False using M(2) by simp
    next
      case 2
      then obtain a where a: "M = {#a#}" using size_1_singleton_mset by blast
      with M(1) have "a = ?t1 \<or> a = ?t2 \<or> a = ?t3 \<or> a = ?t4" by simp
      then show False using M(2) a by auto
    next
      case 3
      then obtain a b where ab: "M = {#a, b#}" using mset_size_two by blast
      with M(1) have "a = ?t1 \<or> a = ?t2 \<or> a = ?t3 \<or> a = ?t4"
        and "b = ?t1 \<or> b = ?t2 \<or> b = ?t3 \<or> b = ?t4" by simp_all
      then show False using M(2,3) ab by (auto simp: price_val_def)
    qed
  qed
  have s: "set_mset {#?t3#} \<subseteq> set ?T" "total_amount {#?t3#} = 4"
    "total_cost {#?t3#} = 18014398509481984"
    "set_mset {#?t4#} \<subseteq> set ?T" "total_amount {#?t4#} = 5"
    "total_cost {#?t4#} = 18014398509481984"
    by (simp_all add: price_val_def)
  show ?thesis using v e s m1 m2 by (intro conjI)
qed

text \<open>
  Claim C5 (tie-break), as the code has it. Take a non-empty catalogue with strictly
  positive amounts whose prices are positive integers \<open>p\<close> with
  \<open>p * (targetRP + maxRP) \<le> 2\<^sup>5\<^sup>3\<close>, a target above \<open>0\<close>, and
  \<open>targetRP + maxRP + 1 \<le> 2\<^sup>3\<^sup>2 - 1\<close>. Then the returned \<open>totalRP\<close> is the smallest amount
  at or above the target that is reachable at the minimum total price: the returned
  packages reach \<open>totalRP\<close> at \<open>totalPrice\<close>, no multiset reaching the target is cheaper,
  and every multiset reaching the target at that same price has an amount of at least
  \<open>totalRP\<close>.
\<close>

theorem tie_break:
  assumes "valid_tiers tiers" and "exact_prices targetRP tiers"
    and "allocatable targetRP tiers" and "0 < targetRP"
  shows "\<exists>p c. findOptimalPlan targetRP tiers = Some (Inr p) \<and> totalPrice p = Num c \<and>
    set (packages p) \<subseteq> set tiers \<and> targetRP \<le> totalRP p \<and>
    total_amount (mset (packages p)) = totalRP p \<and> total_cost (mset (packages p)) = c \<and>
    (\<forall>M. set_mset M \<subseteq> set tiers \<and> targetRP \<le> total_amount M \<longrightarrow>
       c \<le> total_cost M \<and> (total_cost M = c \<longrightarrow> totalRP p \<le> total_amount M))"
proof -
  from solver_spec_valid [OF assms] obtain pk b c where
    res: "findOptimalPlan targetRP tiers =
      Some (Inr \<lparr>packages = pk, totalRP = b, totalPrice = Num c\<rparr>)"
    and pk: "set pk \<subseteq> set tiers" "total_amount (mset pk) = b" "total_cost (mset pk) = c"
      "targetRP \<le> b"
    and opt: "\<forall>M. set_mset M \<subseteq> set tiers \<and> targetRP \<le> total_amount M \<longrightarrow>
       c \<le> total_cost M \<and> (total_cost M = c \<longrightarrow> b \<le> total_amount M)"
    by blast
  let ?p = "\<lparr>packages = pk, totalRP = b, totalPrice = Num c\<rparr>"
  have "findOptimalPlan targetRP tiers = Some (Inr ?p) \<and> totalPrice ?p = Num c \<and>
    set (packages ?p) \<subseteq> set tiers \<and> targetRP \<le> totalRP ?p \<and>
    total_amount (mset (packages ?p)) = totalRP ?p \<and> total_cost (mset (packages ?p)) = c \<and>
    (\<forall>M. set_mset M \<subseteq> set tiers \<and> targetRP \<le> total_amount M \<longrightarrow>
       c \<le> total_cost M \<and> (total_cost M = c \<longrightarrow> totalRP ?p \<le> total_amount M))"
    using res pk opt by simp
  then show ?thesis by blast
qed

text \<open>
  An instance with a tie: packages of amounts \<open>2\<close> and \<open>3\<close>, both at price \<open>3\<close>, target \<open>5\<close>.
  The amounts \<open>5\<close> and \<open>6\<close> both cost \<open>6\<close>, and \<open>5\<close> is returned.
\<close>

theorem tie_break_witness:
  "valid_tiers [\<lparr>id_pkg = 1, rp = 2, price = Num 3\<rparr>,
    \<lparr>id_pkg = 2, rp = 3, price = Num 3\<rparr>] \<and>
   exact_prices 5 [\<lparr>id_pkg = 1, rp = 2, price = Num 3\<rparr>,
     \<lparr>id_pkg = 2, rp = 3, price = Num 3\<rparr>] \<and>
   allocatable 5 [\<lparr>id_pkg = 1, rp = 2, price = Num 3\<rparr>,
     \<lparr>id_pkg = 2, rp = 3, price = Num 3\<rparr>] \<and> (0::int) < 5 \<and>
   set_mset {#\<lparr>id_pkg = 2, rp = 3, price = Num 3\<rparr>,
     \<lparr>id_pkg = 2, rp = 3, price = Num 3\<rparr>#} \<subseteq> set [\<lparr>id_pkg = 1, rp = 2, price = Num 3\<rparr>,
     \<lparr>id_pkg = 2, rp = 3, price = Num 3\<rparr>] \<and>
   5 \<le> total_amount {#\<lparr>id_pkg = 2, rp = 3, price = Num 3\<rparr>,
     \<lparr>id_pkg = 2, rp = 3, price = Num 3\<rparr>#} \<and>
   (\<exists>p. findOptimalPlan 5 [\<lparr>id_pkg = 1, rp = 2, price = Num 3\<rparr>,
     \<lparr>id_pkg = 2, rp = 3, price = Num 3\<rparr>] = Some (Inr p) \<and>
      totalPrice p = Num (total_cost {#\<lparr>id_pkg = 2, rp = 3, price = Num 3\<rparr>,
        \<lparr>id_pkg = 2, rp = 3, price = Num 3\<rparr>#}) \<and>
      totalRP p = 5 \<and>
      totalRP p \<le> total_amount {#\<lparr>id_pkg = 2, rp = 3, price = Num 3\<rparr>,
        \<lparr>id_pkg = 2, rp = 3, price = Num 3\<rparr>#})"
proof -
  let ?T = "[\<lparr>id_pkg = 1, rp = 2, price = Num 3\<rparr>,
    \<lparr>id_pkg = 2, rp = 3, price = Num 3\<rparr>]"
  let ?M = "{#\<lparr>id_pkg = 2, rp = 3, price = Num 3\<rparr>,
    \<lparr>id_pkg = 2, rp = 3, price = Num 3\<rparr>#}"
  have v: "valid_tiers ?T" by (simp add: valid_tiers_def)
  have x: "exact_prices 5 ?T" by (simp add: exact_prices_def maxRP_of_def)
  have l: "allocatable 5 ?T" by (simp add: allocatable_def maxRP_of_def)
  have t: "(0::int) < 5" by simp
  have s: "set_mset ?M \<subseteq> set ?T" by simp
  have a: "5 \<le> total_amount ?M" by simp
  have b1: "num_add (Num 0) (Num 3) = Num 3"
    using num_add_small [of 0 3] by simp
  have b2: "num_add (Num 3) (Num 3) = Num 6"
    using num_add_small [of 3 3] by simp
  have b3: "num_add (Num 6) (Num 3) = Num 9"
    using num_add_small [of 6 3] by simp
  have e: "findOptimalPlan 5 ?T =
     Some (Inr \<lparr>packages = [\<lparr>id_pkg = 2, rp = 3, price = Num 3\<rparr>,
       \<lparr>id_pkg = 1, rp = 2, price = Num 3\<rparr>],
       totalRP = 5, totalPrice = Num 6\<rparr>)"
    by (simp add: solver_eval b1 b2 b3 del: num_add.simps)
  from tie_break [OF v x l t] obtain p c where
    p: "findOptimalPlan 5 ?T = Some (Inr p)" "totalPrice p = Num c"
    and tie: "\<forall>M. set_mset M \<subseteq> set ?T \<and> 5 \<le> total_amount M \<longrightarrow>
       c \<le> total_cost M \<and> (total_cost M = c \<longrightarrow> totalRP p \<le> total_amount M)"
    by blast
  from p e have c: "c = 6" and r: "totalRP p = 5" by auto
  have "total_cost ?M = c" using c by (simp add: price_val_def)
  with tie s a have "totalRP p \<le> total_amount ?M" by blast
  with p c r v x l s a show ?thesis by (simp add: price_val_def)
qed

text \<open>
  Claim C6 says that the returned \<open>totalPrice\<close> is the sum of the prices of the returned
  packages. \<open>totalPrice\<close> is the entry of the cost array, a chain of rounded additions from
  amount \<open>0\<close> upwards. With the packages \<open>1\<close> at \<open>2\<^sup>5\<^sup>3 + 6\<close> and \<open>2\<close> at \<open>2\<^sup>5\<^sup>3 + 4\<close> and
  the target \<open>5\<close>, the code returns three packages and \<open>totalPrice = 27021597764222988\<close>;
  their prices sum to \<open>27021597764222990\<close>, and added as doubles in the order of the
  returned list they give \<open>27021597764222992\<close>. The amounts do sum to \<open>totalRP\<close>.
\<close>

theorem consistency_counterexample:
  "valid_tiers [\<lparr>id_pkg = 1, rp = 1, price = Num 9007199254740998\<rparr>,
    \<lparr>id_pkg = 2, rp = 2, price = Num 9007199254740996\<rparr>] \<and>
   findOptimalPlan 5 [\<lparr>id_pkg = 1, rp = 1, price = Num 9007199254740998\<rparr>,
     \<lparr>id_pkg = 2, rp = 2, price = Num 9007199254740996\<rparr>] =
     Some (Inr \<lparr>packages = [\<lparr>id_pkg = 2, rp = 2, price = Num 9007199254740996\<rparr>,
       \<lparr>id_pkg = 2, rp = 2, price = Num 9007199254740996\<rparr>,
       \<lparr>id_pkg = 1, rp = 1, price = Num 9007199254740998\<rparr>],
       totalRP = 5, totalPrice = Num 27021597764222988\<rparr>) \<and>
   sum_list (map price_val [\<lparr>id_pkg = 2, rp = 2, price = Num 9007199254740996\<rparr>,
     \<lparr>id_pkg = 2, rp = 2, price = Num 9007199254740996\<rparr>,
     \<lparr>id_pkg = 1, rp = 1, price = Num 9007199254740998\<rparr>]) = 27021597764222990 \<and>
   foldl num_add (Num 0) (map price [\<lparr>id_pkg = 2, rp = 2, price = Num 9007199254740996\<rparr>,
     \<lparr>id_pkg = 2, rp = 2, price = Num 9007199254740996\<rparr>,
     \<lparr>id_pkg = 1, rp = 1, price = Num 9007199254740998\<rparr>]) = Num 27021597764222992 \<and>
   sum_list (map rp [\<lparr>id_pkg = 2, rp = 2, price = Num 9007199254740996\<rparr>,
     \<lparr>id_pkg = 2, rp = 2, price = Num 9007199254740996\<rparr>,
     \<lparr>id_pkg = 1, rp = 1, price = Num 9007199254740998\<rparr>]) = 5"
proof -
  have a1: "num_add (Num 0) (Num 9007199254740998) = Num 9007199254740998"
    using num_add_int [of 1 0 9007199254740998] by simp
  have a2: "num_add (Num 0) (Num 9007199254740996) = Num 9007199254740996"
    using num_add_int [of 1 0 9007199254740996] by simp
  have a3: "num_add (Num 9007199254740998) (Num 9007199254740998) = Num 18014398509481996"
    using num_add_int [of 2 9007199254740998 9007199254740998] by simp
  have a4: "num_add (Num 9007199254740998) (Num 9007199254740996) = Num 18014398509481992"
    using num_add_int [of 2 9007199254740998 9007199254740996] by simp
  have a5: "num_add (Num 9007199254740996) (Num 9007199254740998) = Num 18014398509481992"
    using num_add_int [of 2 9007199254740996 9007199254740998] by simp
  have a6: "num_add (Num 9007199254740996) (Num 9007199254740996) = Num 18014398509481992"
    using num_add_int [of 2 9007199254740996 9007199254740996] by simp
  have a7: "num_add (Num 18014398509481992) (Num 9007199254740998) = Num 27021597764222992"
    using num_add_int [of 2 18014398509481992 9007199254740998] by simp
  have a8: "num_add (Num 18014398509481992) (Num 9007199254740996) = Num 27021597764222988"
    using num_add_int [of 2 18014398509481992 9007199254740996] by simp
  have a9: "num_add (Num 27021597764222988) (Num 9007199254740998) = Num 36028797018963984"
    using num_add_int [of 3 27021597764222988 9007199254740998] by simp
  have a10: "num_add (Num 27021597764222988) (Num 9007199254740996) = Num 36028797018963984"
    using num_add_int [of 3 27021597764222988 9007199254740996] by simp
  have s1: "num_add (Num 0) (Num 9007199254740996) = Num 9007199254740996"
    using num_add_int [of 1 0 9007199254740996] by simp
  have s2: "num_add (Num 9007199254740996) (Num 9007199254740996) = Num 18014398509481992"
    using num_add_int [of 2 9007199254740996 9007199254740996] by simp
  have s3: "num_add (Num 18014398509481992) (Num 9007199254740998) = Num 27021597764222992"
    using num_add_int [of 2 18014398509481992 9007199254740998] by simp
  have e: "findOptimalPlan 5 [\<lparr>id_pkg = 1, rp = 1, price = Num 9007199254740998\<rparr>,
    \<lparr>id_pkg = 2, rp = 2, price = Num 9007199254740996\<rparr>] =
     Some (Inr \<lparr>packages = [\<lparr>id_pkg = 2, rp = 2, price = Num 9007199254740996\<rparr>,
       \<lparr>id_pkg = 2, rp = 2, price = Num 9007199254740996\<rparr>,
       \<lparr>id_pkg = 1, rp = 1, price = Num 9007199254740998\<rparr>],
       totalRP = 5, totalPrice = Num 27021597764222988\<rparr>)"
    by (simp add: solver_eval a1 a2 a3 a4 a5 a6 a7 a8 a9 a10 del: num_add.simps)
  have f: "foldl num_add (Num 0) (map price [\<lparr>id_pkg = 2, rp = 2, price = Num 9007199254740996\<rparr>,
    \<lparr>id_pkg = 2, rp = 2, price = Num 9007199254740996\<rparr>,
    \<lparr>id_pkg = 1, rp = 1, price = Num 9007199254740998\<rparr>]) = Num 27021597764222992"
    by (simp add: s1 s2 s3 del: num_add.simps)
  show ?thesis
    unfolding e f by (simp add: valid_tiers_def price_val_def)
qed

text \<open>
  Claim C6 (consistency), as the code has it. Take a non-empty catalogue with strictly
  positive amounts whose prices are positive integers \<open>p\<close> with
  \<open>p * (targetRP + maxRP) \<le> 2\<^sup>5\<^sup>3\<close>, a target above \<open>0\<close>, and
  \<open>targetRP + maxRP + 1 \<le> 2\<^sup>3\<^sup>2 - 1\<close>. Then the returned \<open>totalPrice\<close> is the sum of the
  prices of the returned packages, as a real sum and as the sum of doubles in the order
  of the returned list, and the returned \<open>totalRP\<close> is the sum of their amounts.
\<close>

theorem consistency:
  assumes "valid_tiers tiers" and "exact_prices targetRP tiers"
    and "allocatable targetRP tiers" and "0 < targetRP"
  shows "\<exists>p. findOptimalPlan targetRP tiers = Some (Inr p) \<and>
    totalPrice p = Num (sum_list (map price_val (packages p))) \<and>
    totalPrice p = foldl num_add (Num 0) (map price (packages p)) \<and>
    totalRP p = sum_list (map rp (packages p))"
proof -
  from solver_spec_valid [OF assms] obtain pk b c where
    res: "findOptimalPlan targetRP tiers =
      Some (Inr \<lparr>packages = pk, totalRP = b, totalPrice = Num c\<rparr>)"
    and pk: "set pk \<subseteq> set tiers" "total_amount (mset pk) = b" "total_cost (mset pk) = c"
    and small: "c \<le> 2 ^ 53"
    by blast
  have c: "c = sum_list (map price_val pk)" using pk(3) by (simp add: total_cost_mset)
  have "\<forall>t\<in>set pk. \<exists>p. price t = Num p \<and> price_val t = p \<and> p \<in> \<int> \<and> 0 < p"
  proof
    fix t assume "t \<in> set pk"
    with pk(1) have "t \<in> set tiers" by blast
    from exact_prices_D [OF assms(2) this]
    show "\<exists>p. price t = Num p \<and> price_val t = p \<and> p \<in> \<int> \<and> 0 < p" by blast
  qed
  from foldl_num_add_exact [OF this, of 0] small c
  have "foldl num_add (Num 0) (map price pk) = Num c" by simp
  with res pk(2) c show ?thesis by (simp add: total_amount_mset)
qed

theorem consistency_witness:
  "valid_tiers [\<lparr>id_pkg = 1, rp = 4, price = Num 5\<rparr>,
    \<lparr>id_pkg = 2, rp = 7, price = Num 8\<rparr>] \<and>
   exact_prices 9 [\<lparr>id_pkg = 1, rp = 4, price = Num 5\<rparr>,
     \<lparr>id_pkg = 2, rp = 7, price = Num 8\<rparr>] \<and>
   allocatable 9 [\<lparr>id_pkg = 1, rp = 4, price = Num 5\<rparr>,
     \<lparr>id_pkg = 2, rp = 7, price = Num 8\<rparr>] \<and> (0::int) < 9 \<and>
   (\<exists>p. findOptimalPlan 9 [\<lparr>id_pkg = 1, rp = 4, price = Num 5\<rparr>,
     \<lparr>id_pkg = 2, rp = 7, price = Num 8\<rparr>] = Some (Inr p) \<and>
      totalPrice p = Num (sum_list (map price_val (packages p))) \<and>
      totalPrice p = foldl num_add (Num 0) (map price (packages p)) \<and>
      totalRP p = sum_list (map rp (packages p)))"
proof -
  let ?T = "[\<lparr>id_pkg = 1, rp = 4, price = Num 5\<rparr>,
    \<lparr>id_pkg = 2, rp = 7, price = Num 8\<rparr>]"
  have v: "valid_tiers ?T" by (simp add: valid_tiers_def)
  have x: "exact_prices 9 ?T" by (simp add: exact_prices_def maxRP_of_def)
  have l: "allocatable 9 ?T" by (simp add: allocatable_def maxRP_of_def)
  have t: "(0::int) < 9" by simp
  from consistency [OF v x l t] v x l show ?thesis by simp
qed

text \<open>
  Claim C7 (non-positive target). For every catalogue, a target of \<open>0\<close> or below returns
  the empty plan, with no packages, \<open>totalRP = 0\<close> and \<open>totalPrice = 0\<close>; this is the first
  statement of the function, before any table is built, and it is a normal return.
\<close>

theorem non_positive_target:
  assumes "targetRP \<le> 0"
  shows "findOptimalPlan targetRP tiers =
    Some (Inr \<lparr>packages = [], totalRP = 0, totalPrice = Num 0\<rparr>)"
  using assms by (simp add: findOptimalPlan_def)

theorem non_positive_target_witness:
  "(-5::int) \<le> 0 \<and> (0::int) \<le> 0 \<and>
   findOptimalPlan (-5) [\<lparr>id_pkg = 1, rp = 480, price = Num 4900\<rparr>] =
     Some (Inr \<lparr>packages = [], totalRP = 0, totalPrice = Num 0\<rparr>) \<and>
   findOptimalPlan 0 [] = Some (Inr \<lparr>packages = [], totalRP = 0, totalPrice = Num 0\<rparr>)"
proof -
  have a: "(-5::int) \<le> 0" and b: "(0::int) \<le> 0" by simp_all
  from non_positive_target [OF a, of "[\<lparr>id_pkg = 1, rp = 480, price = Num 4900\<rparr>]"]
    non_positive_target [OF b, of "[]"]
  show ?thesis by simp
qed

text \<open>
  Claim C8 (the scenario of the specification). With the packages \<open>480\<close> at \<open>4900\<close>, \<open>980\<close> at
  \<open>9900\<close> and \<open>1425\<close> at \<open>14000\<close> and the target \<open>1820\<close>, the solver returns the plan made
  of one package of \<open>1425\<close> and one of \<open>480\<close>, with \<open>totalRP = 1905\<close> and
  \<open>totalPrice = 18900\<close>.
\<close>

theorem scenario_1820:
  "\<exists>p. findOptimalPlan 1820
       [\<lparr>id_pkg = 1, rp = 480, price = Num 4900\<rparr>,
        \<lparr>id_pkg = 2, rp = 980, price = Num 9900\<rparr>,
        \<lparr>id_pkg = 3, rp = 1425, price = Num 14000\<rparr>] = Some (Inr p) \<and>
     mset (packages p) =
       {#\<lparr>id_pkg = 3, rp = 1425, price = Num 14000\<rparr>,
        \<lparr>id_pkg = 1, rp = 480, price = Num 4900\<rparr>#} \<and>
     totalRP p = 1905 \<and> totalPrice p = Num 18900"
proof -
  let ?t1 = "\<lparr>id_pkg = 1, rp = 480, price = Num 4900\<rparr>"
  let ?t2 = "\<lparr>id_pkg = 2, rp = 980, price = Num 9900\<rparr>"
  let ?t3 = "\<lparr>id_pkg = 3, rp = 1425, price = Num 14000\<rparr>"
  let ?T = "[?t1, ?t2, ?t3]"
  have ne: "?t1 \<noteq> ?t2" "?t1 \<noteq> ?t3" "?t2 \<noteq> ?t3" by simp_all
  have v: "valid_tiers ?T" by (simp add: valid_tiers_def)
  have x: "exact_prices 1820 ?T" by (simp add: exact_prices_def maxRP_of_def)
  have l: "allocatable 1820 ?T" by (simp add: allocatable_def maxRP_of_def)
  have amount: "total_amount M =
      480 * int (count M ?t1) + 980 * int (count M ?t2) + 1425 * int (count M ?t3)"
    and cost: "total_cost M =
      of_int (4900 * int (count M ?t1) + 9900 * int (count M ?t2) + 14000 * int (count M ?t3))"
    if "set_mset M \<subseteq> set ?T" for M
  proof -
    have sub: "set_mset M \<subseteq> {?t1, ?t2, ?t3}" using that by simp
    show "total_amount M =
        480 * int (count M ?t1) + 980 * int (count M ?t2) + 1425 * int (count M ?t3)"
      unfolding total_amount_def sum_mset_three [OF ne sub, of rp] by simp
    show "total_cost M =
        of_int (4900 * int (count M ?t1) + 9900 * int (count M ?t2) + 14000 * int (count M ?t3))"
      unfolding total_cost_def sum_mset_three [OF ne sub, of price_val]
      by (simp add: price_val_def)
  qed
  from solver_spec_valid [OF v x l, of ] obtain pk b c where
    res: "findOptimalPlan 1820 ?T =
      Some (Inr \<lparr>packages = pk, totalRP = b, totalPrice = Num c\<rparr>)"
    and pk: "set pk \<subseteq> set ?T" "total_amount (mset pk) = b" "total_cost (mset pk) = c" "1820 \<le> b"
    and opt: "\<forall>M. set_mset M \<subseteq> set ?T \<and> 1820 \<le> total_amount M \<longrightarrow>
       c \<le> total_cost M \<and> (total_cost M = c \<longrightarrow> b \<le> total_amount M)"
    by auto
  let ?P = "mset pk"
  let ?n = "4900 * int (count ?P ?t1) + 9900 * int (count ?P ?t2) + 14000 * int (count ?P ?t3)"
  have subP: "set_mset ?P \<subseteq> set ?T" using pk(1) by simp
  have cn: "c = of_int ?n" using pk(3) cost [OF subP] by simp
  have "set_mset {#?t3, ?t1#} \<subseteq> set ?T \<and> 1820 \<le> total_amount {#?t3, ?t1#}" by simp
  with opt have "c \<le> total_cost {#?t3, ?t1#}" by blast
  then have "rat_of_int ?n \<le> of_int 18900" unfolding cn by (simp add: price_val_def)
  then have upper: "?n \<le> 18900" by (simp only: of_int_le_iff)
  have "1820 \<le> 480 * int (count ?P ?t1) + 980 * int (count ?P ?t2) + 1425 * int (count ?P ?t3)"
    using pk(2,4) amount [OF subP] by simp
  from scenario_arith_lower [OF this] have lower: "18900 \<le> ?n" .
  from upper lower have n: "?n = 18900" by simp
  then have c: "c = 18900" unfolding cn by simp
  from scenario_arith_unique [OF n]
  have cnt: "count ?P ?t1 = 1" "count ?P ?t2 = 0" "count ?P ?t3 = 1" by simp_all
  have P: "?P = {#?t3, ?t1#}"
  proof (rule multiset_eqI)
    fix u
    show "count ?P u = count {#?t3, ?t1#} u"
    proof (cases "u \<in> set ?T")
      case True
      then have "u = ?t1 \<or> u = ?t2 \<or> u = ?t3" by simp
      then show ?thesis using cnt ne by auto
    next
      case False
      then have "u \<notin> set_mset ?P" using subP by blast
      then have "count ?P u = 0" by (simp add: not_in_iff)
      moreover have "u \<noteq> ?t1" "u \<noteq> ?t3" using False by auto
      ultimately show ?thesis by simp
    qed
  qed
  have b: "b = 1905" using pk(2) P by simp
  show ?thesis using res P b c by simp
qed

text \<open>
  Claim C9 says that for every valid catalogue and every target above \<open>0\<close> the solver
  selects an amount and walks the back pointers from it. With one package of amount
  \<open>100\<close> and target \<open>5000000000\<close> the arrays cannot be allocated: the call throws a
  \<^verbatim>\<open>RangeError\<close> before any amount is selected, there is no walk, and no multiset is
  returned.
\<close>

theorem reconstruction_counterexample:
  "valid_tiers [\<lparr>id_pkg = 1, rp = 100, price = Num 10\<rparr>] \<and> (0::int) < 5000000000 \<and>
   findOptimalPlan 5000000000 [\<lparr>id_pkg = 1, rp = 100, price = Num 10\<rparr>] = Some (Inl RangeError)"
  by (simp add: valid_tiers_def findOptimalPlan_def buildTable_def new_Array_def maxRP_of_def)

text \<open>
  Claim C9 (the reconstruction ends), as the code has it. For a non-empty catalogue with
  strictly positive amounts and prices, a target above \<open>0\<close> and
  \<open>targetRP + maxRP + 1 \<le> 2\<^sup>3\<^sup>2 - 1\<close>: every back pointer recorded in the table names a
  strictly smaller, non-negative amount; the solver returns, the walk from the selected
  amount ends; the loop body runs exactly as many times as the returned plan has
  packages, and each run strictly decreases the current amount.
\<close>

theorem reconstruction_terminates:
  assumes "valid_tiers tiers" and "allocatable targetRP tiers" and "0 < targetRP"
  shows "\<exists>p cur. findOptimalPlan targetRP tiers = Some (Inr p) \<and>
    walk (parent_table targetRP tiers) (totalRP p, []) = Some (cur, packages p) \<and>
    walk_state (parent_table targetRP tiers) (totalRP p) (length (packages p)) =
      (cur, packages p) \<and>
    \<not> walk_cond (parent_table targetRP tiers)
       (walk_state (parent_table targetRP tiers) (totalRP p) (length (packages p))) \<and>
    (\<forall>m < length (packages p).
       walk_cond (parent_table targetRP tiers)
         (walk_state (parent_table targetRP tiers) (totalRP p) m) \<and>
       fst (walk_state (parent_table targetRP tiers) (totalRP p) (Suc m))
         < fst (walk_state (parent_table targetRP tiers) (totalRP p) m)) \<and>
    (\<forall>k t prev. 0 \<le> k \<and> k \<le> targetRP + maxRP_of tiers \<and>
       parent_table targetRP tiers ! nat k = Some (t, prev) \<longrightarrow> 0 \<le> prev \<and> prev < k)"
proof -
  let ?parent = "parent_table targetRP tiers"
  from solver_run [OF valid_tiers_D(2) [OF assms(1)] assms(3,2)] obtain pk b mp cur where
    res: "findOptimalPlan targetRP tiers =
      Some (Inr \<lparr>packages = pk, totalRP = b, totalPrice = mp\<rparr>)"
    and w: "walk ?parent (b, []) = Some (cur, pk)"
    and it: "walk_state ?parent b (length pk) = (cur, pk)"
    and stop: "\<not> walk_cond ?parent (cur, pk)"
    and st: "\<forall>m < length pk. walk_cond ?parent (walk_state ?parent b m) \<and>
       fst (walk_state ?parent b (Suc m)) < fst (walk_state ?parent b m)"
    and dec: "\<forall>k t prev. 0 \<le> k \<and> k \<le> targetRP + maxRP_of tiers \<and>
       ?parent ! nat k = Some (t, prev) \<longrightarrow> 0 \<le> prev \<and> prev < k"
    by blast
  let ?p = "\<lparr>packages = pk, totalRP = b, totalPrice = mp\<rparr>"
  have "findOptimalPlan targetRP tiers = Some (Inr ?p) \<and>
    walk ?parent (totalRP ?p, []) = Some (cur, packages ?p) \<and>
    walk_state ?parent (totalRP ?p) (length (packages ?p)) = (cur, packages ?p) \<and>
    \<not> walk_cond ?parent (walk_state ?parent (totalRP ?p) (length (packages ?p))) \<and>
    (\<forall>m < length (packages ?p).
       walk_cond ?parent (walk_state ?parent (totalRP ?p) m) \<and>
       fst (walk_state ?parent (totalRP ?p) (Suc m)) < fst (walk_state ?parent (totalRP ?p) m)) \<and>
    (\<forall>k t prev. 0 \<le> k \<and> k \<le> targetRP + maxRP_of tiers \<and>
       ?parent ! nat k = Some (t, prev) \<longrightarrow> 0 \<le> prev \<and> prev < k)"
    using res w it st stop dec by simp
  then show ?thesis by blast
qed

theorem reconstruction_terminates_witness:
  "valid_tiers [\<lparr>id_pkg = 1, rp = 2, price = Num 5\<rparr>,
    \<lparr>id_pkg = 2, rp = 5, price = Num 9\<rparr>] \<and>
   allocatable 6 [\<lparr>id_pkg = 1, rp = 2, price = Num 5\<rparr>,
     \<lparr>id_pkg = 2, rp = 5, price = Num 9\<rparr>] \<and> (0::int) < 6 \<and>
   (\<exists>p cur. findOptimalPlan 6 [\<lparr>id_pkg = 1, rp = 2, price = Num 5\<rparr>,
     \<lparr>id_pkg = 2, rp = 5, price = Num 9\<rparr>] = Some (Inr p) \<and>
      length (packages p) = 2 \<and>
      walk (parent_table 6 [\<lparr>id_pkg = 1, rp = 2, price = Num 5\<rparr>,
        \<lparr>id_pkg = 2, rp = 5, price = Num 9\<rparr>])
        (totalRP p, []) = Some (cur, packages p) \<and>
      walk_state (parent_table 6 [\<lparr>id_pkg = 1, rp = 2, price = Num 5\<rparr>,
        \<lparr>id_pkg = 2, rp = 5, price = Num 9\<rparr>])
        (totalRP p) 2 = (cur, packages p) \<and>
      walk_cond (parent_table 6 [\<lparr>id_pkg = 1, rp = 2, price = Num 5\<rparr>,
        \<lparr>id_pkg = 2, rp = 5, price = Num 9\<rparr>])
        (walk_state (parent_table 6 [\<lparr>id_pkg = 1, rp = 2, price = Num 5\<rparr>,
        \<lparr>id_pkg = 2, rp = 5, price = Num 9\<rparr>])
           (totalRP p) 1) \<and>
      fst (walk_state (parent_table 6 [\<lparr>id_pkg = 1, rp = 2, price = Num 5\<rparr>,
        \<lparr>id_pkg = 2, rp = 5, price = Num 9\<rparr>])
           (totalRP p) 2)
        < fst (walk_state (parent_table 6 [\<lparr>id_pkg = 1, rp = 2, price = Num 5\<rparr>,
        \<lparr>id_pkg = 2, rp = 5, price = Num 9\<rparr>])
           (totalRP p) 1))"
proof -
  let ?T = "[\<lparr>id_pkg = 1, rp = 2, price = Num 5\<rparr>,
    \<lparr>id_pkg = 2, rp = 5, price = Num 9\<rparr>]"
  have v: "valid_tiers ?T" by (simp add: valid_tiers_def)
  have l: "allocatable 6 ?T" by (simp add: allocatable_def maxRP_of_def)
  have t: "(0::int) < 6" by simp
  have a1: "num_add (Num 0) (Num 5) = Num 5"
    using num_add_small [of 0 5] by simp
  have a2: "num_add (Num 0) (Num 9) = Num 9"
    using num_add_small [of 0 9] by simp
  have a3: "num_add (Num 5) (Num 5) = Num 10"
    using num_add_small [of 5 5] by simp
  have a4: "num_add (Num 5) (Num 9) = Num 14"
    using num_add_small [of 5 9] by simp
  have a5: "num_add (Num 10) (Num 5) = Num 15"
    using num_add_small [of 10 5] by simp
  have a6: "num_add (Num 10) (Num 9) = Num 19"
    using num_add_small [of 10 9] by simp
  have a7: "num_add (Num 9) (Num 5) = Num 14"
    using num_add_small [of 9 5] by simp
  have a8: "num_add (Num 9) (Num 9) = Num 18"
    using num_add_small [of 9 9] by simp
  have a9: "num_add (Num 15) (Num 5) = Num 20"
    using num_add_small [of 15 5] by simp
  have a10: "num_add (Num 15) (Num 9) = Num 24"
    using num_add_small [of 15 9] by simp
  have a11: "num_add (Num 14) (Num 5) = Num 19"
    using num_add_small [of 14 5] by simp
  have a12: "num_add (Num 20) (Num 5) = Num 25"
    using num_add_small [of 20 5] by simp
  have a13: "num_add (Num 19) (Num 5) = Num 24"
    using num_add_small [of 19 5] by simp
  have e: "findOptimalPlan 6 ?T =
     Some (Inr \<lparr>packages = [\<lparr>id_pkg = 2, rp = 5, price = Num 9\<rparr>,
       \<lparr>id_pkg = 1, rp = 2, price = Num 5\<rparr>],
       totalRP = 7, totalPrice = Num 14\<rparr>)"
    by (simp add: solver_eval a1 a2 a3 a4 a5 a6 a7 a8 a9 a10 a11 a12 a13 del: num_add.simps)
  from reconstruction_terminates [OF v l t] obtain p cur where
    p: "findOptimalPlan 6 ?T = Some (Inr p)"
      "walk (parent_table 6 ?T) (totalRP p, []) = Some (cur, packages p)"
      "walk_state (parent_table 6 ?T) (totalRP p) (length (packages p)) = (cur, packages p)"
    and st: "\<forall>m < length (packages p).
       walk_cond (parent_table 6 ?T) (walk_state (parent_table 6 ?T) (totalRP p) m) \<and>
       fst (walk_state (parent_table 6 ?T) (totalRP p) (Suc m))
         < fst (walk_state (parent_table 6 ?T) (totalRP p) m)"
    by blast
  from p(1) e have len: "length (packages p) = 2" by auto
  then have "(1::nat) < length (packages p)" by simp
  with st have "walk_cond (parent_table 6 ?T) (walk_state (parent_table 6 ?T) (totalRP p) 1) \<and>
       fst (walk_state (parent_table 6 ?T) (totalRP p) (Suc 1))
         < fst (walk_state (parent_table 6 ?T) (totalRP p) 1)"
    by blast
  moreover have "Suc 1 = 2" by simp
  ultimately have step: "walk_cond (parent_table 6 ?T) (walk_state (parent_table 6 ?T) (totalRP p) 1) \<and>
       fst (walk_state (parent_table 6 ?T) (totalRP p) 2)
         < fst (walk_state (parent_table 6 ?T) (totalRP p) 1)"
    by (simp del: One_nat_def)
  have "findOptimalPlan 6 ?T = Some (Inr p) \<and> length (packages p) = 2 \<and>
      walk (parent_table 6 ?T) (totalRP p, []) = Some (cur, packages p) \<and>
      walk_state (parent_table 6 ?T) (totalRP p) 2 = (cur, packages p) \<and>
      walk_cond (parent_table 6 ?T) (walk_state (parent_table 6 ?T) (totalRP p) 1) \<and>
      fst (walk_state (parent_table 6 ?T) (totalRP p) 2)
        < fst (walk_state (parent_table 6 ?T) (totalRP p) 1)"
    using p len step by simp
  then have "\<exists>p cur. findOptimalPlan 6 ?T = Some (Inr p) \<and> length (packages p) = 2 \<and>
      walk (parent_table 6 ?T) (totalRP p, []) = Some (cur, packages p) \<and>
      walk_state (parent_table 6 ?T) (totalRP p) 2 = (cur, packages p) \<and>
      walk_cond (parent_table 6 ?T) (walk_state (parent_table 6 ?T) (totalRP p) 1) \<and>
      fst (walk_state (parent_table 6 ?T) (totalRP p) 2)
        < fst (walk_state (parent_table 6 ?T) (totalRP p) 1)"
    by blast
  with v l t show ?thesis by (intro conjI)
qed

text \<open>
  Claim C10 (overshoot bound). For a target above \<open>0\<close> and any catalogue, whenever the
  solver returns a plan its \<open>totalRP\<close> is at least the target and at most the target plus
  the largest amount of the catalogue (taken as \<open>0\<close> when the catalogue is empty, as the
  reduction in the source is seeded with \<open>0\<close>; for a non-empty catalogue with positive
  amounts this is the largest amount). The solver does return a plan when all amounts
  are strictly positive and \<open>targetRP + maxRP + 1 \<le> 2\<^sup>3\<^sup>2 - 1\<close>; beyond that length the
  allocation throws a \<^verbatim>\<open>RangeError\<close> and nothing is returned.
\<close>

theorem overshoot_bound:
  assumes "0 < targetRP"
  shows "(\<forall>p. findOptimalPlan targetRP tiers = Some (Inr p) \<longrightarrow>
            targetRP \<le> totalRP p \<and> totalRP p \<le> targetRP + Max (insert 0 (rp ` set tiers))) \<and>
    ((\<forall>t\<in>set tiers. 0 < rp t) \<and> allocatable targetRP tiers \<longrightarrow>
       (\<exists>p. findOptimalPlan targetRP tiers = Some (Inr p))) \<and>
    (\<not> allocatable targetRP tiers \<longrightarrow> findOptimalPlan targetRP tiers = Some (Inl RangeError)) \<and>
    (tiers \<noteq> [] \<and> (\<forall>t\<in>set tiers. 0 < rp t) \<longrightarrow>
       Max (insert 0 (rp ` set tiers)) = Max (rp ` set tiers))"
proof -
  have a: "\<forall>p. findOptimalPlan targetRP tiers = Some (Inr p) \<longrightarrow>
            targetRP \<le> totalRP p \<and> totalRP p \<le> targetRP + Max (insert 0 (rp ` set tiers))"
  proof (intro allI impI)
    fix p assume "findOptimalPlan targetRP tiers = Some (Inr p)"
    from solver_range [OF assms this]
    show "targetRP \<le> totalRP p \<and> totalRP p \<le> targetRP + Max (insert 0 (rp ` set tiers))"
      by (simp add: maxRP_of_Max)
  qed
  have b: "(\<forall>t\<in>set tiers. 0 < rp t) \<and> allocatable targetRP tiers \<longrightarrow>
       (\<exists>p. findOptimalPlan targetRP tiers = Some (Inr p))"
  proof
    assume h: "(\<forall>t\<in>set tiers. 0 < rp t) \<and> allocatable targetRP tiers"
    from solver_run [OF conjunct1 [OF h] assms conjunct2 [OF h]]
    show "\<exists>p. findOptimalPlan targetRP tiers = Some (Inr p)" by blast
  qed
  have c: "\<not> allocatable targetRP tiers \<longrightarrow> findOptimalPlan targetRP tiers = Some (Inl RangeError)"
    using findOptimalPlan_RangeError [OF assms] by blast
  have d: "tiers \<noteq> [] \<and> (\<forall>t\<in>set tiers. 0 < rp t) \<longrightarrow>
       Max (insert 0 (rp ` set tiers)) = Max (rp ` set tiers)"
    using maxRP_of_Max_pos [of tiers] maxRP_of_Max [of tiers] by simp
  from a b c d show ?thesis by (intro conjI)
qed

theorem overshoot_bound_witness:
  "(0::int) < 4 \<and> 0 < rp \<lparr>id_pkg = 1, rp = 3, price = Num 7\<rparr> \<and>
   allocatable 4 [\<lparr>id_pkg = 1, rp = 3, price = Num 7\<rparr>] \<and>
   (\<exists>p. findOptimalPlan 4 [\<lparr>id_pkg = 1, rp = 3, price = Num 7\<rparr>] = Some (Inr p) \<and>
      4 \<le> totalRP p \<and>
      totalRP p \<le> 4 + Max (insert 0 (rp ` set [\<lparr>id_pkg = 1, rp = 3, price = Num 7\<rparr>])) \<and>
      Max (insert 0 (rp ` set [\<lparr>id_pkg = 1, rp = 3, price = Num 7\<rparr>])) = 3)"
proof -
  let ?T = "[\<lparr>id_pkg = 1, rp = 3, price = Num 7\<rparr>]"
  have t: "(0::int) < 4" by simp
  have pos: "\<forall>t\<in>set ?T. 0 < rp t" by simp
  have l: "allocatable 4 ?T" by (simp add: allocatable_def maxRP_of_def)
  note ob = overshoot_bound [OF t, of ?T]
  from ob pos l obtain p where p: "findOptimalPlan 4 ?T = Some (Inr p)" by blast
  with ob have "4 \<le> totalRP p \<and> totalRP p \<le> 4 + Max (insert 0 (rp ` set ?T))" by blast
  with p l show ?thesis by auto
qed

end
